theory Spec2Isabelle
  imports Main "HOL-Library.Sublist"
begin

section \<open>Values shared by the server actions and the webhook route\<close>

text \<open>
  A thrown JavaScript error, as far as the code inspects it: the catch block of
  \<open>createIngress\<close> reads \<open>error.message\<close> (possibly undefined) and \<open>error.code\<close>.
\<close>

datatype js_error = JsError (err_message: "string option") (err_code: "string option")

text \<open>\<open>new Error(msg)\<close>: a message and no \<open>code\<close> property.\<close>

definition Error :: "string \<Rightarrow> js_error" where
  "Error msg = JsError (Some msg) None"

text \<open>
  \<open>IngressInfo\<close> of the LiveKit server SDK, the type of the elements of \<open>listIngress\<close>, of
  the result of \<open>createIngress\<close> and of \<open>event.ingressInfo\<close>. Its fields are protocol-buffer
  strings: an absent value is the empty string, which is what the truthiness tests
  \<open>if (ingress.ingressId)\<close>, \<open>!ingress.url\<close> and \<open>!ingress.streamKey\<close> detect.
\<close>

record ingressInfo =
  ingressId :: string
  roomName :: string
  participantIdentity :: string
  participantName :: string
  url :: string
  streamKey :: string

text \<open>\<open>Room\<close> of the SDK; only \<open>room.name\<close> is read.\<close>

record room =
  name :: string

datatype ingressInput = RTMP_INPUT | WHIP_INPUT | URL_INPUT

datatype trackSource = UNKNOWN | CAMERA | MICROPHONE | SCREEN_SHARE | SCREEN_SHARE_AUDIO

datatype ingressVideoEncodingPreset =
    H264_720P_30FPS_3_LAYERS
  | H264_1080P_30FPS_3_LAYERS
  | H264_540P_25FPS_2_LAYERS
  | H264_720P_30FPS_1_LAYER
  | H264_1080P_30FPS_1_LAYER

datatype ingressAudioEncodingPreset = OPUS_STEREO_96KBPS | OPUS_MONO_64KBS

record ingressVideoOptions =
  video_source :: trackSource
  video_preset :: ingressVideoEncodingPreset

record ingressAudioOptions =
  audio_source :: trackSource
  audio_preset :: ingressAudioEncodingPreset

text \<open>
  \<open>CreateIngressOptions\<close>: the four fields the action always sets, and the three it sets
  in one branch only (\<open>None\<close> is a property left undefined).
\<close>

record createIngressOptions =
  opt_name :: string
  opt_roomName :: string
  opt_participantName :: string
  opt_participantIdentity :: string
  bypassTranscoding :: "bool option"
  video :: "ingressVideoOptions option"
  audio :: "ingressAudioOptions option"

text \<open>
  Modelled from the spec: the declaration of the Stream table (the Prisma schema) is not
  among the sources. Section 3 lists its attributes (owning identity, nullable ingress
  identifier, nullable server URL, nullable stream key, is-live flag); the columns
  \<open>ingressId\<close> and \<open>streamKey\<close> carry the prefix \<open>stream_\<close> here because the SDK's
  \<open>IngressInfo\<close> has fields of the same names. The record is extensible, so a statement
  about a \<open>stream\<close> update leaves every further column untouched as well.
\<close>

record stream =
  stream_id :: string
  userId :: string
  stream_ingressId :: "string option"
  serverUrl :: "string option"
  stream_streamKey :: "string option"
  isLive :: bool
  isChatEnabled :: bool
  isChatDelayed :: bool
  isChatFollowersOnly :: bool

section \<open>The provider control API and the world the actions run in\<close>

text \<open>
  The control API of the media provider (\<open>ingressClient\<close>, \<open>roomService\<close>) is remote: the
  actions only see what each call returns. It is a parameter of the model, an arbitrary
  deterministic service with a state of its own of type \<open>'p\<close>; every call returns a value
  or rejects with an error, and may change the provider's state.
\<close>

record 'p livekitApi =
  ingressClient_listIngress :: "string \<Rightarrow> 'p \<Rightarrow> (js_error + ingressInfo list) \<times> 'p"
  ingressClient_deleteIngress :: "string \<Rightarrow> 'p \<Rightarrow> (js_error + unit) \<times> 'p"
  roomService_listRooms :: "string list \<Rightarrow> 'p \<Rightarrow> (js_error + room list) \<times> 'p"
  roomService_deleteRoom :: "string \<Rightarrow> 'p \<Rightarrow> (js_error + unit) \<times> 'p"
  ingressClient_createIngress ::
    "ingressInput \<Rightarrow> createIngressOptions \<Rightarrow> 'p \<Rightarrow> (js_error + ingressInfo option) \<times> 'p"

text \<open>The calls an action can issue to its collaborators, with their arguments.\<close>

datatype call =
    ListIngress string
  | ListRooms "string list"
  | DeleteIngress string
  | DeleteRoom string
  | CreateIngress ingressInput createIngressOptions
  | RevalidatePath string

text \<open>
  The world: the provider's state, the rows of \<open>db.stream\<close>, and the calls issued so far,
  oldest first, each with its outcome (\<open>None\<close>: it returned; \<open>Some e\<close>: it rejected with
  \<open>e\<close>). Console output is not part of the model.
\<close>

record 'p world =
  livekit :: 'p
  streams :: "stream list"
  trace :: "(call \<times> js_error option) list"

definition outcome :: "js_error + 'a \<Rightarrow> js_error option" where
  "outcome res = (case res of Inl e \<Rightarrow> Some e | Inr _ \<Rightarrow> None)"

text \<open>\<open>await f(...)\<close> on the provider: run the call, keep its new state, record it.\<close>

definition perform ::
  "call \<Rightarrow> ('p \<Rightarrow> (js_error + 'a) \<times> 'p) \<Rightarrow> 'p world \<Rightarrow> (js_error + 'a) \<times> 'p world" where
  "perform c f w =
     (case f (livekit w) of
        (res, p') \<Rightarrow> (res, w\<lparr>livekit := p', trace := trace w @ [(c, outcome res)]\<rparr>))"

text \<open>The calls that a run starting in \<open>w\<close> and ending in \<open>w'\<close> has issued.\<close>

definition issued :: "'p world \<Rightarrow> 'p world \<Rightarrow> (call \<times> js_error option) list" where
  "issued w w' = drop (length (trace w)) (trace w')"

section \<open>\<open>resetIngresses\<close>\<close>

text \<open>
  The first loop of \<open>resetIngresses\<close>. An \<open>await\<close> that rejects leaves the loop and the
  function: there is no \<open>try\<close> in \<open>resetIngresses\<close>.
\<close>

fun delete_ingresses ::
  "'p livekitApi \<Rightarrow> string \<Rightarrow> ingressInfo list \<Rightarrow> 'p world \<Rightarrow> (js_error + unit) \<times> 'p world" where
  "delete_ingresses api hostIdentity [] w = (Inr (), w)"
| "delete_ingresses api hostIdentity (ingress # rest) w =
     (if ingressId ingress \<noteq> [] then
        if roomName ingress = hostIdentity \<or> participantIdentity ingress = hostIdentity then
          (case perform (DeleteIngress (ingressId ingress))
                  (ingressClient_deleteIngress api (ingressId ingress)) w of
             (Inl e, w') \<Rightarrow> (Inl e, w')
           | (Inr _, w') \<Rightarrow> delete_ingresses api hostIdentity rest w')
        else delete_ingresses api hostIdentity rest w
      else delete_ingresses api hostIdentity rest w)"

text \<open>The second loop.\<close>

fun delete_rooms ::
  "'p livekitApi \<Rightarrow> string \<Rightarrow> room list \<Rightarrow> 'p world \<Rightarrow> (js_error + unit) \<times> 'p world" where
  "delete_rooms api hostIdentity [] w = (Inr (), w)"
| "delete_rooms api hostIdentity (room # rest) w =
     (if name room = hostIdentity then
        (case perform (DeleteRoom (name room)) (roomService_deleteRoom api (name room)) w of
           (Inl e, w') \<Rightarrow> (Inl e, w')
         | (Inr _, w') \<Rightarrow> delete_rooms api hostIdentity rest w')
      else delete_rooms api hostIdentity rest w)"

definition resetIngresses ::
  "'p livekitApi \<Rightarrow> string \<Rightarrow> 'p world \<Rightarrow> (js_error + unit) \<times> 'p world" where
  "resetIngresses api hostIdentity w =
     (case perform (ListIngress hostIdentity) (ingressClient_listIngress api hostIdentity) w of
        (Inl e, w1) \<Rightarrow> (Inl e, w1)
      | (Inr ingresses, w1) \<Rightarrow>
          (case perform (ListRooms [hostIdentity]) (roomService_listRooms api [hostIdentity]) w1 of
             (Inl e, w2) \<Rightarrow> (Inl e, w2)
           | (Inr rooms, w2) \<Rightarrow>
               (case delete_ingresses api hostIdentity ingresses w2 of
                  (Inl e, w3) \<Rightarrow> (Inl e, w3)
                | (Inr _, w3) \<Rightarrow> delete_rooms api hostIdentity rooms w3)))"

section \<open>\<open>createIngress\<close>\<close>

text \<open>
  What \<open>getSelf\<close> resolves to: the caller's row of the user table, of which the action
  reads \<open>id\<close> and \<open>username\<close>. \<open>getSelf\<close> itself (the session lookup) is a collaborator;
  its result, a user or a rejection, is a parameter of the action.
\<close>

record user =
  user_id :: string
  username :: string

text \<open>\<open>s.includes(t)\<close>: \<open>t\<close> occurs in \<open>s\<close> as a contiguous substring.\<close>

fun str_includes :: "string \<Rightarrow> string \<Rightarrow> bool" where
  "str_includes [] t = (t = [])"
| "str_includes (c # s) t = (prefix t (c # s) \<or> str_includes s t)"

text \<open>
  Modelled from the spec: \<open>db\<close> (the storage client of \<open>lib/db\<close>) is not among the sources.
  Section 6 asks of it a keyed point update of one StreamRecord; the catch block of
  \<open>createIngress\<close> shows how a missing row surfaces: \<open>update\<close> rejects with an error whose
  \<open>code\<close> is \<open>P2025\<close>. \<open>update\<close> changes the one row its unique filter selects and
  resolves to the changed row.
\<close>

fun update_first :: "('a \<Rightarrow> bool) \<Rightarrow> ('a \<Rightarrow> 'a) \<Rightarrow> 'a list \<Rightarrow> ('a \<times> 'a list) option" where
  "update_first P f [] = None"
| "update_first P f (x # xs) =
     (if P x then Some (f x, f x # xs)
      else (case update_first P f xs of
              None \<Rightarrow> None
            | Some (y, ys) \<Rightarrow> Some (y, x # ys)))"

definition record_not_found :: js_error where
  "record_not_found = JsError (Some ''Record to update not found.'') (Some ''P2025'')"

definition stream_update ::
  "(stream \<Rightarrow> bool) \<Rightarrow> (stream \<Rightarrow> stream) \<Rightarrow> stream list \<Rightarrow> js_error + stream \<times> stream list" where
  "stream_update P f db =
     (case update_first P f db of None \<Rightarrow> Inl record_not_found | Some r \<Rightarrow> Inr r)"

text \<open>The options object of \<open>createIngress\<close>, as built before the provider is called.\<close>

definition ingress_options :: "user \<Rightarrow> ingressInput \<Rightarrow> createIngressOptions" where
  "ingress_options self ingressType =
     (let options =
        \<lparr> opt_name = username self, opt_roomName = user_id self,
          opt_participantName = username self, opt_participantIdentity = user_id self,
          bypassTranscoding = None, video = None, audio = None \<rparr>
      in if ingressType = WHIP_INPUT then options\<lparr>bypassTranscoding := Some True\<rparr>
         else options
           \<lparr>video := Some \<lparr>video_source = CAMERA, video_preset = H264_1080P_30FPS_3_LAYERS\<rparr>,
            audio := Some \<lparr>audio_source = MICROPHONE, audio_preset = OPUS_STEREO_96KBPS\<rparr>\<rparr>)"

text \<open>The body of the \<open>try\<close> block: \<open>Inl\<close> is whatever it throws.\<close>

definition createIngress_try ::
  "'p livekitApi \<Rightarrow> js_error + user \<Rightarrow> ingressInput \<Rightarrow> 'p world \<Rightarrow> (js_error + ingressInfo) \<times> 'p world" where
  "createIngress_try api getSelf ingressType w =
     (case getSelf of
        Inl e \<Rightarrow> (Inl e, w)
      | Inr self \<Rightarrow>
          (case resetIngresses api (user_id self) w of
             (Inl e, w1) \<Rightarrow> (Inl e, w1)
           | (Inr _, w1) \<Rightarrow>
               (let options = ingress_options self ingressType in
                case perform (CreateIngress ingressType options)
                       (ingressClient_createIngress api ingressType options) w1 of
                  (Inl e, w2) \<Rightarrow> (Inl e, w2)
                | (Inr None, w2) \<Rightarrow>
                    (Inl (Error ''LiveKit failed to create ingress - no response received''), w2)
                | (Inr (Some ingress), w2) \<Rightarrow>
                    if url ingress = [] \<or> streamKey ingress = [] then
                      (Inl (Error ''LiveKit created ingress but did not provide URL or stream key''), w2)
                    else
                      (case stream_update (\<lambda>s. userId s = user_id self)
                              (\<lambda>s. s\<lparr>stream_ingressId := Some (ingressId ingress),
                                      serverUrl := Some (url ingress),
                                      stream_streamKey := Some (streamKey ingress)\<rparr>)
                              (streams w2) of
                         Inl e \<Rightarrow> (Inl e, w2)
                       | Inr (_, db') \<Rightarrow>
                           (Inr ingress,
                            w2\<lparr>streams := db',
                               trace := trace w2 @
                                 [(RevalidatePath (''/u/'' @ username self @ ''/keys''), None)]\<rparr>)))))"

text \<open>The \<open>catch\<close> block: the error the action rejects with, given the one caught.\<close>

definition createIngress_catch :: "js_error \<Rightarrow> js_error" where
  "createIngress_catch error =
     (if (case err_message error of None \<Rightarrow> False | Some m \<Rightarrow> str_includes m ''LiveKit'')
      then error
      else if err_code error = Some ''P2025''
      then Error ''Stream not found in database. Please contact support.''
      else Error (case err_message error of
                    None \<Rightarrow> ''Failed to create stream ingress''
                  | Some m \<Rightarrow> if m = [] then ''Failed to create stream ingress'' else m))"

definition createIngress ::
  "'p livekitApi \<Rightarrow> js_error + user \<Rightarrow> ingressInput \<Rightarrow> 'p world \<Rightarrow> (js_error + ingressInfo) \<times> 'p world" where
  "createIngress api getSelf ingressType w =
     (case createIngress_try api getSelf ingressType w of
        (Inl error, w') \<Rightarrow> (Inl (createIngress_catch error), w')
      | (Inr ingress, w') \<Rightarrow> (Inr ingress, w'))"

section \<open>The webhook route: \<open>POST\<close>\<close>

text \<open>
  Of the request the route reads the raw body and the \<open>Authorization\<close> header (\<open>null\<close> when
  absent). \<open>receiver.receive\<close>, the SDK's signature check and parser, is a parameter: it
  returns the event or throws.
\<close>

record request =
  body :: string
  authorization :: "string option"

record webhookEvent =
  event :: string
  ingressInfo :: "ingressInfo option"

datatype response = Response (response_body: string) (status: nat)

text \<open>
  \<open>db.stream.update\<close> with \<open>where: { ingressId: event.ingressInfo?.ingressId }\<close>. With an
  undefined identifier the unique filter is empty and the client rejects the query.
\<close>

definition invalid_where :: js_error where
  "invalid_where = JsError (Some ''Argument where needs at least one unique field.'') None"

definition update_isLive :: "webhookEvent \<Rightarrow> bool \<Rightarrow> stream list \<Rightarrow> js_error + stream \<times> stream list" where
  "update_isLive ev live db =
     (case map_option ingressId (ingressInfo ev) of
        None \<Rightarrow> Inl invalid_where
      | Some i \<Rightarrow> stream_update (\<lambda>s. stream_ingressId s = Some i) (\<lambda>s. s\<lparr>isLive := live\<rparr>) db)"

definition POST_try ::
  "(string \<Rightarrow> string \<Rightarrow> js_error + webhookEvent) \<Rightarrow> request \<Rightarrow> stream list \<Rightarrow>
     (js_error + response) \<times> stream list" where
  "POST_try receive req db =
     (case authorization req of
        None \<Rightarrow> (Inr (Response ''No authorization header'' 400), db)
      | Some auth \<Rightarrow>
          if auth = [] then (Inr (Response ''No authorization header'' 400), db)
          else
            (case receive (body req) auth of
               Inl e \<Rightarrow> (Inl e, db)
             | Inr ev \<Rightarrow>
                 (case (if event ev = ''ingress_started''
                        then map_sum id snd (update_isLive ev True db) else Inr db) of
                    Inl e \<Rightarrow> (Inl e, db)
                  | Inr db1 \<Rightarrow>
                      (case (if event ev = ''ingress_ended''
                             then map_sum id snd (update_isLive ev False db1) else Inr db1) of
                         Inl e \<Rightarrow> (Inl e, db1)
                       | Inr db2 \<Rightarrow> (Inr (Response ''OK'' 200), db2)))))"

definition POST ::
  "(string \<Rightarrow> string \<Rightarrow> js_error + webhookEvent) \<Rightarrow> request \<Rightarrow> stream list \<Rightarrow>
     response \<times> stream list" where
  "POST receive req db =
     (case POST_try receive req db of
        (Inl error, db') \<Rightarrow> (Response ''Internal Server Error'' 500, db')
      | (Inr resp, db') \<Rightarrow> (resp, db'))"

section \<open>Providers to run the actions against\<close>

text \<open>
  A scripted provider, for running the actions on concrete inputs: the listing calls
  return the given lists whatever the filter, a deletion is rejected for the identifiers
  and names in \<open>bad\<close>, and create-ingress returns the given response. It has no state.
\<close>

definition stub_api ::
  "ingressInfo list \<Rightarrow> room list \<Rightarrow> string list \<Rightarrow> (js_error + ingressInfo option) \<Rightarrow> unit livekitApi" where
  "stub_api gs rs bad resp =
     \<lparr> ingressClient_listIngress = (\<lambda>r p. (Inr gs, p)),
       ingressClient_deleteIngress =
         (\<lambda>i p. (if i \<in> set bad then Inl (Error ''ingress deletion rejected'') else Inr (), p)),
       roomService_listRooms = (\<lambda>ns p. (Inr rs, p)),
       roomService_deleteRoom =
         (\<lambda>n p. (if n \<in> set bad then Inl (Error ''room deletion rejected'') else Inr (), p)),
       ingressClient_createIngress = (\<lambda>t opts p. (resp, p)) \<rparr>"

definition mk_ingress :: "string \<Rightarrow> string \<Rightarrow> string \<Rightarrow> ingressInfo" where
  "mk_ingress i r p =
     \<lparr> ingressId = i, roomName = r, participantIdentity = p, participantName = p,
       url = ''rtmp://ingest'', streamKey = ''key-'' @ i \<rparr>"

definition world0 :: "stream list \<Rightarrow> unit world" where
  "world0 db = \<lparr> livekit = (), streams = db, trace = [] \<rparr>"

text \<open>
  Modelled from the spec: the provider itself is a remote service. This is the provider
  as sections 3 and 6 describe it, kept in memory: \<open>listIngress\<close> returns the ingresses
  whose room name is the filter, \<open>listRooms\<close> the rooms with one of the given names,
  a deletion removes the resource with that identifier or name, and \<open>createIngress\<close> adds
  an ingress for the requested room and participant with a generated identifier, URL and
  key.
\<close>

record memory =
  mem_ingresses :: "ingressInfo list"
  mem_rooms :: "room list"
  mem_next :: nat

definition memory_api :: "memory livekitApi" where
  "memory_api =
     \<lparr> ingressClient_listIngress =
         (\<lambda>r p. (Inr (filter (\<lambda>g. roomName g = r) (mem_ingresses p)), p)),
       ingressClient_deleteIngress =
         (\<lambda>i p. (Inr (), p\<lparr>mem_ingresses := filter (\<lambda>g. ingressId g \<noteq> i) (mem_ingresses p)\<rparr>)),
       roomService_listRooms =
         (\<lambda>ns p. (Inr (filter (\<lambda>r. name r \<in> set ns) (mem_rooms p)), p)),
       roomService_deleteRoom =
         (\<lambda>n p. (Inr (), p\<lparr>mem_rooms := filter (\<lambda>r. name r \<noteq> n) (mem_rooms p)\<rparr>)),
       ingressClient_createIngress =
         (\<lambda>t opts p.
            let g = \<lparr> ingressId = ''IN_'' @ replicate (mem_next p) (CHR ''x''),
                      roomName = opt_roomName opts,
                      participantIdentity = opt_participantIdentity opts,
                      participantName = opt_participantName opts,
                      url = ''rtmp://ingest'',
                      streamKey = ''key-'' @ replicate (mem_next p) (CHR ''k'') \<rparr>
            in (Inr (Some g), p\<lparr>mem_ingresses := mem_ingresses p @ [g], mem_next := Suc (mem_next p)\<rparr>)) \<rparr>"

text \<open>The ingresses the provider holds for an identity: those of the identity's room.\<close>

definition ingresses_of :: "string \<Rightarrow> memory \<Rightarrow> ingressInfo list" where
  "ingresses_of h p = filter (\<lambda>g. roomName g = h) (mem_ingresses p)"

text \<open>A row of the Stream table for a user, with nothing provisioned yet.\<close>

definition mk_stream :: "string \<Rightarrow> bool \<Rightarrow> stream" where
  "mk_stream u live =
     \<lparr> stream_id = ''s-'' @ u, userId = u, stream_ingressId = None, serverUrl = None,
       stream_streamKey = None, isLive = live, isChatEnabled = True, isChatDelayed = False,
       isChatFollowersOnly = False \<rparr>"

section \<open>What a sweep is expected to issue\<close>

text \<open>
  The deletions \<open>resetIngresses\<close> has to issue for given listings, in order: one for each
  listed ingress that has an identifier and whose room name or participant identity is
  the host identity, then one for each listed room of that name.
\<close>

definition deletable :: "string \<Rightarrow> ingressInfo \<Rightarrow> bool" where
  "deletable h g \<longleftrightarrow> ingressId g \<noteq> [] \<and> (roomName g = h \<or> participantIdentity g = h)"

definition ingress_plan :: "string \<Rightarrow> ingressInfo list \<Rightarrow> call list" where
  "ingress_plan h gs = map (\<lambda>g. DeleteIngress (ingressId g)) (filter (deletable h) gs)"

definition room_plan :: "string \<Rightarrow> room list \<Rightarrow> call list" where
  "room_plan h rs = map (\<lambda>r. DeleteRoom (name r)) (filter (\<lambda>r. name r = h) rs)"

definition succeeded :: "call list \<Rightarrow> (call \<times> js_error option) list" where
  "succeeded cs = map (\<lambda>c. (c, None)) cs"

text \<open>
  How a sequence of planned calls ends when each is awaited in turn and a rejection is
  not caught: either all of them were issued and returned, or the first \<open>k\<close> returned,
  call \<open>k\<close> rejected with the error the whole sequence rejects with, and nothing after it
  was issued.
\<close>

definition sweep_outcome ::
  "call list \<Rightarrow> js_error + unit \<Rightarrow> (call \<times> js_error option) list \<Rightarrow> bool" where
  "sweep_outcome plan res evs \<longleftrightarrow>
     (case res of
        Inr _ \<Rightarrow> evs = succeeded plan
      | Inl e \<Rightarrow> (\<exists>k<length plan. evs = succeeded (take k plan) @ [(plan ! k, Some e)]))"

text \<open>The is-live flag of the row that has a given ingress identifier, if there is one.\<close>

definition isLive_of :: "string \<Rightarrow> stream list \<Rightarrow> bool option" where
  "isLive_of i db = map_option isLive (find (\<lambda>s. stream_ingressId s = Some i) db)"

section \<open>Concrete inputs\<close>

text \<open>Listings with resources of other hosts among those of host \<open>U1\<close>.\<close>

definition decoys :: "ingressInfo list" where
  "decoys =
     [mk_ingress ''I1'' ''U1'' ''U1'', mk_ingress ''I2'' ''U2'' ''U2'',
      mk_ingress ''I3'' ''U1x'' ''xU1'', mk_ingress ''I4'' ''U'' ''U12'',
      mk_ingress ''I5'' ''U2'' ''U1'', mk_ingress [] ''U1'' ''U1'']"

definition decoy_rooms :: "room list" where
  "decoy_rooms = [\<lparr>name = ''U1x''\<rparr>, \<lparr>name = ''U1''\<rparr>, \<lparr>name = ''U''\<rparr>, \<lparr>name = ''U2''\<rparr>]"

text \<open>Two ingresses of host \<open>U1\<close>.\<close>

definition two_owned :: "ingressInfo list" where
  "two_owned = [mk_ingress ''I1'' ''U1'' ''U1'', mk_ingress ''I2'' ''U1'' ''U1'']"

text \<open>A caller and a Stream table to run the actions on.\<close>

definition alice :: user where
  "alice = \<lparr> user_id = ''U1'', username = ''alice'' \<rparr>"

definition two_streams :: "stream list" where
  "two_streams = [mk_stream ''U2'' False, mk_stream ''U1'' True]"

text \<open>
  A provider that holds an ingress and a room of host \<open>U1\<close> and an ingress and a room of
  host \<open>U2\<close>, with the Stream table above.
\<close>

definition memory_world :: "memory world" where
  "memory_world =
     \<lparr> livekit =
         \<lparr> mem_ingresses = [mk_ingress ''I1'' ''U1'' ''U1'', mk_ingress ''I9'' ''U2'' ''U2''],
           mem_rooms = [\<lparr>name = ''U1''\<rparr>, \<lparr>name = ''U2''\<rparr>],
           mem_next = 2 \<rparr>,
       streams = two_streams, trace = [] \<rparr>"

text \<open>A verifier that accepts every signature and parses the body to a fixed event.\<close>

definition accept_as :: "string \<Rightarrow> string \<Rightarrow> string \<Rightarrow> string \<Rightarrow> js_error + webhookEvent" where
  "accept_as kind i b a = Inr \<lparr> event = kind, ingressInfo = Some (mk_ingress i ''U1'' ''U1'') \<rparr>"

definition signed_request :: request where
  "signed_request = \<lparr> body = ''{}'', authorization = Some ''signature'' \<rparr>"

text \<open>The Stream table above, after host \<open>U1\<close> was given ingress \<open>I1\<close>.\<close>

definition provisioned_streams :: "stream list" where
  "provisioned_streams =
     [mk_stream ''U2'' False,
      (mk_stream ''U1'' False)\<lparr>stream_ingressId := Some ''I1'', serverUrl := Some ''rtmp://ingest'',
                                stream_streamKey := Some ''key-I1''\<rparr>]"

section \<open>Facts about \<open>resetIngresses\<close>\<close>

lemma perform_trace:
  "perform c f w = (res, w') \<Longrightarrow> trace w' = trace w @ [(c, outcome res)] \<and> streams w' = streams w"
  by (auto simp: perform_def split: prod.splits)

lemma issued_append: "trace w' = trace w @ evs \<Longrightarrow> issued w w' = evs"
  by (simp add: issued_def)

lemma sweep_outcome_fail: "sweep_outcome (c # cs) (Inl e) [(c, Some e)]"
  by (simp add: sweep_outcome_def succeeded_def)

lemma sweep_outcome_Cons:
  assumes "sweep_outcome cs res evs"
  shows "sweep_outcome (c # cs) res ((c, None) # evs)"
proof (cases res)
  case (Inl e)
  with assms obtain k where k: "k < length cs" "evs = succeeded (take k cs) @ [(cs ! k, Some e)]"
    by (auto simp: sweep_outcome_def)
  then have "Suc k < length (c # cs)"
    and "(c, None) # evs = succeeded (take (Suc k) (c # cs)) @ [((c # cs) ! Suc k, Some e)]"
    by (simp_all add: succeeded_def)
  then show ?thesis
    unfolding sweep_outcome_def Inl by (simp only: sum.case) (rule exI [of _ "Suc k"], simp)
next
  case (Inr u)
  with assms show ?thesis by (simp add: sweep_outcome_def succeeded_def)
qed

lemma sweep_outcome_append:
  assumes "sweep_outcome cs (Inr ()) evs" and "sweep_outcome cs' res evs'"
  shows "sweep_outcome (cs @ cs') res (evs @ evs')"
  using assms
proof (induction cs arbitrary: evs)
  case Nil
  then show ?case by (simp add: sweep_outcome_def succeeded_def)
next
  case (Cons c cs)
  from Cons.prems(1) obtain evs0 where e: "evs = (c, None) # evs0" "sweep_outcome cs (Inr ()) evs0"
    by (auto simp: sweep_outcome_def succeeded_def)
  from sweep_outcome_Cons [OF Cons.IH [OF e(2) Cons.prems(2)], of c] show ?case
    by (simp add: e(1))
qed

lemma sweep_outcome_abort:
  assumes "sweep_outcome cs (Inl e) evs"
  shows "sweep_outcome (cs @ cs') (Inl e) evs"
proof -
  from assms obtain k where k: "k < length cs" "evs = succeeded (take k cs) @ [(cs ! k, Some e)]"
    by (auto simp: sweep_outcome_def)
  then have "k < length (cs @ cs')" "evs = succeeded (take k (cs @ cs')) @ [((cs @ cs') ! k, Some e)]"
    by (simp_all add: nth_append)
  then show ?thesis
    unfolding sweep_outcome_def by (simp only: sum.case) (rule exI [of _ k], simp)
qed

lemma delete_ingresses_sweep:
  "delete_ingresses api h gs w = (res, w') \<Longrightarrow>
     streams w' = streams w \<and>
     (\<exists>evs. trace w' = trace w @ evs \<and> sweep_outcome (ingress_plan h gs) res evs)"
proof (induction gs arbitrary: w)
  case Nil
  then show ?case by (auto simp: ingress_plan_def sweep_outcome_def succeeded_def)
next
  case (Cons g gs)
  show ?case
  proof (cases "deletable h g")
    case False
    then have "delete_ingresses api h gs w = (res, w')"
      using Cons.prems by (auto simp: deletable_def split: if_splits)
    from Cons.IH [OF this] show ?thesis using False by (simp add: ingress_plan_def)
  next
    case True
    let ?c = "DeleteIngress (ingressId g)"
    have plan: "ingress_plan h (g # gs) = ?c # ingress_plan h gs"
      using True by (simp add: ingress_plan_def)
    obtain r w1 where p: "perform ?c (ingressClient_deleteIngress api (ingressId g)) w = (r, w1)"
      by (cases "perform ?c (ingressClient_deleteIngress api (ingressId g)) w")
    note t1 = perform_trace [OF p]
    show ?thesis
    proof (cases r)
      case (Inl e)
      then have "w' = w1" "res = Inl e" using Cons.prems True p by (auto simp: deletable_def)
      then show ?thesis using t1 Inl sweep_outcome_fail [of ?c "ingress_plan h gs" e]
        by (simp add: plan outcome_def)
    next
      case (Inr u)
      then have "delete_ingresses api h gs w1 = (res, w')"
        using Cons.prems True p by (auto simp: deletable_def)
      from Cons.IH [OF this] obtain evs where
        e: "trace w' = trace w1 @ evs" "streams w' = streams w1"
           "sweep_outcome (ingress_plan h gs) res evs"
        by blast
      have a: "trace w' = trace w @ ((?c, None) # evs)"
        using e t1 Inr by (simp add: outcome_def)
      have b: "streams w' = streams w" using e(2) t1 by simp
      have c: "sweep_outcome (ingress_plan h (g # gs)) res ((?c, None) # evs)"
        unfolding plan by (rule sweep_outcome_Cons [OF e(3)])
      show ?thesis by (intro exI [of _ "(?c, None) # evs"] conjI a b c)
    qed
  qed
qed

lemma delete_rooms_sweep:
  "delete_rooms api h rs w = (res, w') \<Longrightarrow>
     streams w' = streams w \<and>
     (\<exists>evs. trace w' = trace w @ evs \<and> sweep_outcome (room_plan h rs) res evs)"
proof (induction rs arbitrary: w)
  case Nil
  then show ?case by (auto simp: room_plan_def sweep_outcome_def succeeded_def)
next
  case (Cons r rs)
  show ?case
  proof (cases "name r = h")
    case False
    then have "delete_rooms api h rs w = (res, w')"
      using Cons.prems by simp
    from Cons.IH [OF this] show ?thesis using False by (simp add: room_plan_def)
  next
    case True
    let ?c = "DeleteRoom (name r)"
    have plan: "room_plan h (r # rs) = ?c # room_plan h rs"
      using True by (simp add: room_plan_def)
    obtain x w1 where p: "perform ?c (roomService_deleteRoom api (name r)) w = (x, w1)"
      by (cases "perform ?c (roomService_deleteRoom api (name r)) w")
    note t1 = perform_trace [OF p]
    show ?thesis
    proof (cases x)
      case (Inl e)
      then have "w' = w1" "res = Inl e" using Cons.prems True p by auto
      then show ?thesis using t1 Inl sweep_outcome_fail [of ?c "room_plan h rs" e]
        by (simp add: plan outcome_def)
    next
      case (Inr u)
      then have "delete_rooms api h rs w1 = (res, w')"
        using Cons.prems True p by auto
      from Cons.IH [OF this] obtain evs where
        e: "trace w' = trace w1 @ evs" "streams w' = streams w1"
           "sweep_outcome (room_plan h rs) res evs"
        by blast
      have a: "trace w' = trace w @ ((?c, None) # evs)"
        using e t1 Inr by (simp add: outcome_def)
      have b: "streams w' = streams w" using e(2) t1 by simp
      have c: "sweep_outcome (room_plan h (r # rs)) res ((?c, None) # evs)"
        unfolding plan by (rule sweep_outcome_Cons [OF e(3)])
      show ?thesis by (intro exI [of _ "(?c, None) # evs"] conjI a b c)
    qed
  qed
qed

lemma sweep_outcome_calls: "sweep_outcome plan res evs \<Longrightarrow> fst ` set evs \<subseteq> set plan"
proof (cases res)
  case (Inl e)
  assume "sweep_outcome plan res evs"
  with Inl obtain k where k: "k < length plan" "evs = succeeded (take k plan) @ [(plan ! k, Some e)]"
    by (auto simp: sweep_outcome_def)
  have "set (take k plan) \<subseteq> set plan" by (rule set_take_subset)
  moreover have "plan ! k \<in> set plan" using k(1) by simp
  ultimately show ?thesis using k(2) by (auto simp: succeeded_def)
next
  case (Inr u)
  assume "sweep_outcome plan res evs"
  with Inr show ?thesis by (auto simp: sweep_outcome_def succeeded_def)
qed

lemma resetIngresses_list_fail:
  assumes "ingressClient_listIngress api h (livekit w) = (Inl e, p1)"
  shows "resetIngresses api h w =
           (Inl e, w\<lparr>livekit := p1, trace := trace w @ [(ListIngress h, Some e)]\<rparr>)"
  using assms by (simp add: resetIngresses_def perform_def outcome_def)

lemma resetIngresses_rooms_fail:
  assumes "ingressClient_listIngress api h (livekit w) = (Inr gs, p1)"
    and "roomService_listRooms api [h] p1 = (Inl e, p2)"
  shows "resetIngresses api h w =
           (Inl e, w\<lparr>livekit := p2,
                     trace := trace w @ [(ListIngress h, None), (ListRooms [h], Some e)]\<rparr>)"
  using assms by (simp add: resetIngresses_def perform_def outcome_def)

lemma resetIngresses_listed:
  assumes li: "ingressClient_listIngress api h (livekit w) = (Inr gs, p1)"
    and lr: "roomService_listRooms api [h] p1 = (Inr rs, p2)"
    and run: "resetIngresses api h w = (res, w')"
  shows "streams w' = streams w \<and>
         (\<exists>evs. trace w' = trace w @ (ListIngress h, None) # (ListRooms [h], None) # evs \<and>
                sweep_outcome (ingress_plan h gs @ room_plan h rs) res evs)"
proof -
  let ?w2 = "w\<lparr>livekit := p2, trace := trace w @ [(ListIngress h, None), (ListRooms [h], None)]\<rparr>"
  obtain r3 w3 where d: "delete_ingresses api h gs ?w2 = (r3, w3)"
    by (cases "delete_ingresses api h gs ?w2")
  from delete_ingresses_sweep [OF d] obtain evs1 where
    e1: "streams w3 = streams w" "trace w3 = trace ?w2 @ evs1" "sweep_outcome (ingress_plan h gs) r3 evs1"
    by auto
  have unfold: "resetIngresses api h w =
      (case r3 of Inl e \<Rightarrow> (Inl e, w3) | Inr u \<Rightarrow> delete_rooms api h rs w3)"
    using li lr d by (simp add: resetIngresses_def perform_def outcome_def split: sum.splits)
  show ?thesis
  proof (cases r3)
    case (Inl e)
    then have "res = Inl e" "w' = w3" using unfold run by simp_all
    moreover have "sweep_outcome (ingress_plan h gs @ room_plan h rs) (Inl e) evs1"
      using e1(3) Inl by (simp add: sweep_outcome_abort)
    ultimately show ?thesis using e1 by simp
  next
    case (Inr u)
    then have r: "delete_rooms api h rs w3 = (res, w')" using unfold run by simp
    from delete_rooms_sweep [OF r] obtain evs2 where
      e2: "streams w' = streams w3" "trace w' = trace w3 @ evs2" "sweep_outcome (room_plan h rs) res evs2"
      by auto
    have "sweep_outcome (ingress_plan h gs @ room_plan h rs) res (evs1 @ evs2)"
      using e1(3) e2(3) Inr by (simp add: sweep_outcome_append)
    moreover have "trace w' = trace w @ (ListIngress h, None) # (ListRooms [h], None) # (evs1 @ evs2)"
      using e1(2) e2(2) by simp
    moreover have "streams w' = streams w" using e1(1) e2(1) by simp
    ultimately show ?thesis by (intro conjI exI [of _ "evs1 @ evs2"])
  qed
qed

lemma resetIngresses_streams: "resetIngresses api h w = (res, w') \<Longrightarrow> streams w' = streams w"
proof -
  assume run: "resetIngresses api h w = (res, w')"
  obtain x p1 where li: "ingressClient_listIngress api h (livekit w) = (x, p1)"
    by (cases "ingressClient_listIngress api h (livekit w)")
  show ?thesis
  proof (cases x)
    case (Inl e)
    then show ?thesis using resetIngresses_list_fail [of api h w e p1] li run by auto
  next
    case (Inr gs)
    obtain y p2 where lr: "roomService_listRooms api [h] p1 = (y, p2)"
      by (cases "roomService_listRooms api [h] p1")
    show ?thesis
    proof (cases y)
      case (Inl e)
      then show ?thesis using resetIngresses_rooms_fail [of api h w gs p1 e p2] li lr Inr run by auto
    next
      case (Inr rs)
      then show ?thesis using resetIngresses_listed [of api h w gs p1 rs p2 res w'] li lr \<open>x = Inr gs\<close> run
        by simp
    qed
  qed
qed

lemma resetIngresses_issued_cases:
  assumes run: "resetIngresses api h w = (res, w')"
  shows "(\<exists>e. issued w w' = [(ListIngress h, Some e)]) \<or>
         (\<exists>e. issued w w' = [(ListIngress h, None), (ListRooms [h], Some e)]) \<or>
         (\<exists>gs p1 rs p2 evs.
            ingressClient_listIngress api h (livekit w) = (Inr gs, p1) \<and>
            roomService_listRooms api [h] p1 = (Inr rs, p2) \<and>
            issued w w' = (ListIngress h, None) # (ListRooms [h], None) # evs \<and>
            sweep_outcome (ingress_plan h gs @ room_plan h rs) res evs)"
proof -
  obtain x p1 where li: "ingressClient_listIngress api h (livekit w) = (x, p1)"
    by (cases "ingressClient_listIngress api h (livekit w)")
  show ?thesis
  proof (cases x)
    case (Inl e)
    then have "issued w w' = [(ListIngress h, Some e)]"
      using resetIngresses_list_fail [of api h w e p1] li run by (auto simp: issued_def)
    then show ?thesis by blast
  next
    case gs: (Inr gs)
    obtain y p2 where lr: "roomService_listRooms api [h] p1 = (y, p2)"
      by (cases "roomService_listRooms api [h] p1")
    show ?thesis
    proof (cases y)
      case (Inl e)
      then have "issued w w' = [(ListIngress h, None), (ListRooms [h], Some e)]"
        using resetIngresses_rooms_fail [of api h w gs p1 e p2] li lr gs run
        by (auto simp: issued_def)
      then show ?thesis by blast
    next
      case (Inr rs)
      from resetIngresses_listed [of api h w gs p1 rs p2 res w'] li lr gs Inr run
      obtain evs where
        e: "trace w' = trace w @ (ListIngress h, None) # (ListRooms [h], None) # evs"
           "sweep_outcome (ingress_plan h gs @ room_plan h rs) res evs"
        by auto
      have "issued w w' = (ListIngress h, None) # (ListRooms [h], None) # evs"
        by (rule issued_append [OF e(1)])
      then show ?thesis using li lr gs Inr e(2) by blast
    qed
  qed
qed

section \<open>Facts about the stream table\<close>

lemma update_first_None: "update_first P f xs = None \<longleftrightarrow> (\<forall>x\<in>set xs. \<not> P x)"
  by (induction xs) (auto split: option.splits)

lemma update_first_Some:
  "update_first P f xs = Some (y, ys) \<Longrightarrow>
     \<exists>pre x post. xs = pre @ x # post \<and> (\<forall>z\<in>set pre. \<not> P z) \<and> P x \<and>
       y = f x \<and> ys = pre @ f x # post"
proof (induction xs arbitrary: ys)
  case Nil
  then show ?case by simp
next
  case (Cons a xs)
  show ?case
  proof (cases "P a")
    case True
    then have "y = f a" "ys = f a # xs" using Cons.prems by auto
    then show ?thesis
      by (intro exI [of _ "[]"] exI [of _ a] exI [of _ xs]) (use True in simp)
  next
    case False
    then obtain ys' where u: "update_first P f xs = Some (y, ys')" and ys: "ys = a # ys'"
      using Cons.prems by (auto split: option.splits)
    from Cons.IH [OF u] obtain pre x post where
      p: "xs = pre @ x # post" "\<forall>z\<in>set pre. \<not> P z" "P x" "y = f x" "ys' = pre @ f x # post"
      by blast
    show ?thesis
      by (intro exI [of _ "a # pre"] exI [of _ x] exI [of _ post]) (use p ys False in simp)
  qed
qed

lemma update_first_found:
  "(\<forall>z\<in>set pre. \<not> P z) \<Longrightarrow> P x \<Longrightarrow>
     update_first P f (pre @ x # post) = Some (f x, pre @ f x # post)"
  by (induction pre) simp_all

section \<open>Facts about \<open>createIngress\<close>\<close>

lemma createIngress_try_streams:
  assumes "createIngress_try api getSelf t w = (Inl e, w')"
  shows "streams w' = streams w"
proof (cases getSelf)
  case (Inl x)
  then show ?thesis using assms by (simp add: createIngress_try_def)
next
  case (Inr self)
  obtain r w1 where reset: "resetIngresses api (user_id self) w = (r, w1)"
    by (cases "resetIngresses api (user_id self) w")
  note s1 = resetIngresses_streams [OF reset]
  show ?thesis
  proof (cases r)
    case (Inl x)
    then show ?thesis using assms Inr reset s1 by (simp add: createIngress_try_def)
  next
    case u: (Inr u)
    obtain c w2 where create:
      "perform (CreateIngress t (ingress_options self t))
         (ingressClient_createIngress api t (ingress_options self t)) w1 = (c, w2)"
      by (cases "perform (CreateIngress t (ingress_options self t))
         (ingressClient_createIngress api t (ingress_options self t)) w1")
    have s2: "streams w2 = streams w" using perform_trace [OF create] s1 by simp
    have "w' = w2"
      using assms Inr reset u create
      by (auto simp: createIngress_try_def Let_def
          split: sum.splits option.splits if_splits prod.splits)
    then show ?thesis using s2 by simp
  qed
qed

lemma createIngress_rejects_streams:
  "createIngress api getSelf t w = (Inl e, w') \<Longrightarrow> streams w' = streams w"
  by (auto simp: createIngress_def split: sum.splits prod.splits dest: createIngress_try_streams)

lemma createIngress_success:
  assumes "createIngress api getSelf t w = (Inr g, w')"
  shows "\<exists>self w1 p2 s db'.
    getSelf = Inr self \<and>
    resetIngresses api (user_id self) w = (Inr (), w1) \<and>
    ingressClient_createIngress api t (ingress_options self t) (livekit w1) = (Inr (Some g), p2) \<and>
    url g \<noteq> [] \<and> streamKey g \<noteq> [] \<and>
    stream_update (\<lambda>s. userId s = user_id self)
      (\<lambda>s. s\<lparr>stream_ingressId := Some (ingressId g), serverUrl := Some (url g),
              stream_streamKey := Some (streamKey g)\<rparr>) (streams w1) = Inr (s, db') \<and>
    w' = w1\<lparr>livekit := p2, streams := db',
            trace := trace w1 @ [(CreateIngress t (ingress_options self t), None),
                                 (RevalidatePath (''/u/'' @ username self @ ''/keys''), None)]\<rparr>"
proof -
  from assms have t: "createIngress_try api getSelf t w = (Inr g, w')"
    by (auto simp: createIngress_def split: sum.splits prod.splits)
  then obtain self where self: "getSelf = Inr self"
    by (cases getSelf) (auto simp: createIngress_try_def)
  obtain r w1 where reset: "resetIngresses api (user_id self) w = (r, w1)"
    by (cases "resetIngresses api (user_id self) w")
  have r: "r = Inr ()" using t self reset by (cases r) (auto simp: createIngress_try_def)
  obtain c p2 where create:
    "ingressClient_createIngress api t (ingress_options self t) (livekit w1) = (c, p2)"
    by (cases "ingressClient_createIngress api t (ingress_options self t) (livekit w1)")
  have rest: "c = Inr (Some g) \<and> url g \<noteq> [] \<and> streamKey g \<noteq> [] \<and>
    (\<exists>s db'. stream_update (\<lambda>s. userId s = user_id self)
      (\<lambda>s. s\<lparr>stream_ingressId := Some (ingressId g), serverUrl := Some (url g),
              stream_streamKey := Some (streamKey g)\<rparr>) (streams w1) = Inr (s, db') \<and>
    w' = w1\<lparr>livekit := p2, streams := db',
            trace := trace w1 @ [(CreateIngress t (ingress_options self t), None),
                                 (RevalidatePath (''/u/'' @ username self @ ''/keys''), None)]\<rparr>)"
    using t self reset r create
    by (auto simp: createIngress_try_def Let_def perform_def outcome_def
        split: sum.splits prod.splits option.splits if_splits)
  then show ?thesis using self reset r create by blast
qed

lemma resetIngresses_trace:
  assumes run: "resetIngresses api h w = (r, w1)"
  shows "trace w1 = trace w @ issued w w1"
proof -
  obtain x p1 where li: "ingressClient_listIngress api h (livekit w) = (x, p1)"
    by (cases "ingressClient_listIngress api h (livekit w)")
  have "\<exists>evs. trace w1 = trace w @ evs"
  proof (cases x)
    case (Inl e)
    then show ?thesis using resetIngresses_list_fail [of api h w e p1] li run by auto
  next
    case gs: (Inr gs)
    obtain y p2 where lr: "roomService_listRooms api [h] p1 = (y, p2)"
      by (cases "roomService_listRooms api [h] p1")
    show ?thesis
    proof (cases y)
      case (Inl e)
      then show ?thesis using resetIngresses_rooms_fail [of api h w gs p1 e p2] li lr gs run by auto
    next
      case (Inr rs)
      then show ?thesis using resetIngresses_listed [of api h w gs p1 rs p2 r w1] li lr gs run
        by auto
    qed
  qed
  then show ?thesis by (auto simp: issued_def)
qed

lemma resetIngresses_no_create:
  assumes run: "resetIngresses api h w = (r, w1)"
  shows "CreateIngress t opts \<notin> fst ` set (issued w w1)"
proof -
  from resetIngresses_issued_cases [OF run]
  consider e where "issued w w1 = [(ListIngress h, Some e)]"
    | e where "issued w w1 = [(ListIngress h, None), (ListRooms [h], Some e)]"
    | gs rs evs where "issued w w1 = (ListIngress h, None) # (ListRooms [h], None) # evs"
        "sweep_outcome (ingress_plan h gs @ room_plan h rs) r evs"
    by blast
  then show ?thesis
  proof cases
    case 1
    then show ?thesis by simp
  next
    case 2
    then show ?thesis by simp
  next
    case 3
    have "fst ` set evs \<subseteq> set (ingress_plan h gs @ room_plan h rs)"
      by (rule sweep_outcome_calls [OF 3(2)])
    moreover have "CreateIngress t opts \<notin> set (ingress_plan h gs @ room_plan h rs)"
      by (auto simp: ingress_plan_def room_plan_def)
    ultimately show ?thesis unfolding 3(1) by auto
  qed
qed

lemma createIngress_no_self:
  "createIngress api (Inl e) t w = (Inl (createIngress_catch e), w)"
  by (simp add: createIngress_def createIngress_try_def)

lemma createIngress_reset_rejected:
  assumes "resetIngresses api (user_id self) w = (Inl e, w1)"
  shows "createIngress api (Inr self) t w = (Inl (createIngress_catch e), w1)"
  using assms by (simp add: createIngress_def createIngress_try_def)

lemma createIngress_after_reset:
  assumes reset: "resetIngresses api (user_id self) w = (Inr u, w1)"
  shows "\<exists>out tail. trace (snd (createIngress api (Inr self) t w)) =
           trace w1 @ (CreateIngress t (ingress_options self t), out) # tail \<and>
           (tail = [] \<or> tail = [(RevalidatePath (''/u/'' @ username self @ ''/keys''), None)])"
proof -
  obtain c w2 where create:
    "perform (CreateIngress t (ingress_options self t))
       (ingressClient_createIngress api t (ingress_options self t)) w1 = (c, w2)"
    by (cases "perform (CreateIngress t (ingress_options self t))
       (ingressClient_createIngress api t (ingress_options self t)) w1")
  have t2: "trace w2 = trace w1 @ [(CreateIngress t (ingress_options self t), outcome c)]"
    using perform_trace [OF create] by simp
  have "trace (snd (createIngress api (Inr self) t w)) = trace w2 \<or>
        trace (snd (createIngress api (Inr self) t w)) =
          trace w2 @ [(RevalidatePath (''/u/'' @ username self @ ''/keys''), None)]"
    using reset create
    by (auto simp: createIngress_def createIngress_try_def Let_def
        split: sum.splits option.splits prod.splits)
  then show ?thesis using t2 by auto
qed

lemma createIngress_issued:
  assumes reset: "resetIngresses api (user_id self) w = (r, w1)"
  shows "case r of
           Inl e \<Rightarrow> issued w (snd (createIngress api (Inr self) t w)) = issued w w1
         | Inr _ \<Rightarrow>
             (\<exists>out tail.
                issued w (snd (createIngress api (Inr self) t w)) =
                  issued w w1 @ (CreateIngress t (ingress_options self t), out) # tail \<and>
                (tail = [] \<or> tail = [(RevalidatePath (''/u/'' @ username self @ ''/keys''), None)]))"
proof (cases r)
  case (Inl e)
  then show ?thesis using createIngress_reset_rejected [of api self w e w1 t] reset by simp
next
  case (Inr u)
  from createIngress_after_reset [of api self w u w1 t] reset Inr obtain out tail where
    k: "trace (snd (createIngress api (Inr self) t w)) =
          trace w1 @ (CreateIngress t (ingress_options self t), out) # tail"
       "tail = [] \<or> tail = [(RevalidatePath (''/u/'' @ username self @ ''/keys''), None)]"
    by blast
  have "trace (snd (createIngress api (Inr self) t w)) =
      trace w @ (issued w w1 @ (CreateIngress t (ingress_options self t), out) # tail)"
    using k(1) resetIngresses_trace [OF reset] by simp
  from issued_append [OF this] k(2) show ?thesis unfolding Inr by (simp only: sum.case) blast
qed

section \<open>Facts about the provider kept in memory\<close>

lemma memory_delete_ingresses:
  "delete_ingresses memory_api h gs w = (res, w') \<Longrightarrow>
     res = Inr () \<and>
     mem_ingresses (livekit w') =
       filter (\<lambda>x. ingressId x \<notin> ingressId ` set (filter (deletable h) gs))
         (mem_ingresses (livekit w))"
proof (induction gs arbitrary: w)
  case Nil
  then show ?case by simp
next
  case (Cons g gs)
  show ?case
  proof (cases "deletable h g")
    case False
    then have "delete_ingresses memory_api h gs w = (res, w')"
      using Cons.prems by (auto simp: deletable_def split: if_splits)
    from Cons.IH [OF this] show ?thesis using False by simp
  next
    case True
    let ?w1 = "w\<lparr>livekit := (livekit w)\<lparr>mem_ingresses :=
                   filter (\<lambda>x. ingressId x \<noteq> ingressId g) (mem_ingresses (livekit w))\<rparr>,
                 trace := trace w @ [(DeleteIngress (ingressId g), None)]\<rparr>"
    have "delete_ingresses memory_api h gs ?w1 = (res, w')"
      using Cons.prems True by (simp add: deletable_def perform_def memory_api_def outcome_def)
    from Cons.IH [OF this] show ?thesis using True by (auto intro: filter_cong)
  qed
qed

lemma memory_delete_rooms:
  "delete_rooms memory_api h rs w = (res, w') \<Longrightarrow>
     res = Inr () \<and> mem_ingresses (livekit w') = mem_ingresses (livekit w)"
proof (induction rs arbitrary: w)
  case Nil
  then show ?case by simp
next
  case (Cons r rs)
  show ?case
  proof (cases "name r = h")
    case False
    then have "delete_rooms memory_api h rs w = (res, w')" using Cons.prems by simp
    from Cons.IH [OF this] show ?thesis .
  next
    case True
    let ?w1 = "w\<lparr>livekit := (livekit w)\<lparr>mem_rooms :=
                   filter (\<lambda>x. name x \<noteq> name r) (mem_rooms (livekit w))\<rparr>,
                 trace := trace w @ [(DeleteRoom (name r), None)]\<rparr>"
    have "delete_rooms memory_api h rs ?w1 = (res, w')"
      using Cons.prems True by (simp add: perform_def memory_api_def outcome_def)
    from Cons.IH [OF this] show ?thesis by simp
  qed
qed

lemma memory_resetIngresses:
  assumes run: "resetIngresses memory_api h w = (res, w1)"
    and ids: "\<forall>x\<in>set (mem_ingresses (livekit w)). roomName x = h \<longrightarrow> ingressId x \<noteq> []"
  shows "res = Inr () \<and> ingresses_of h (livekit w1) = []"
proof -
  let ?gs = "filter (\<lambda>g. roomName g = h) (mem_ingresses (livekit w))"
  let ?rs = "filter (\<lambda>r. name r \<in> set [h]) (mem_rooms (livekit w))"
  let ?w2 = "w\<lparr>livekit := livekit w,
               trace := trace w @ [(ListIngress h, None), (ListRooms [h], None)]\<rparr>"
  obtain r3 w3 where d: "delete_ingresses memory_api h ?gs ?w2 = (r3, w3)"
    by (cases "delete_ingresses memory_api h ?gs ?w2")
  note d' = memory_delete_ingresses [OF d]
  have "delete_rooms memory_api h ?rs w3 = (res, w1)"
    using run d d' by (simp add: resetIngresses_def perform_def memory_api_def outcome_def)
  note r' = memory_delete_rooms [OF this]
  have "mem_ingresses (livekit w1) =
      filter (\<lambda>x. ingressId x \<notin> ingressId ` set (filter (deletable h) ?gs))
        (mem_ingresses (livekit w))"
    using d' r' by simp
  then have "ingresses_of h (livekit w1) = []"
    using ids by (auto simp: ingresses_of_def filter_empty_conv deletable_def)
  then show ?thesis using r' by simp
qed

lemma memory_createIngress:
  assumes run: "createIngress memory_api (Inr self) t m = (Inr g, m')"
    and ids: "\<forall>x\<in>set (mem_ingresses (livekit m)). roomName x = user_id self \<longrightarrow> ingressId x \<noteq> []"
  shows "ingresses_of (user_id self) (livekit m') = [g]"
proof -
  from createIngress_success [OF run] obtain w1 p2 where
    k: "resetIngresses memory_api (user_id self) m = (Inr (), w1)"
       "ingressClient_createIngress memory_api t (ingress_options self t) (livekit w1) = (Inr (Some g), p2)"
       "livekit m' = p2"
    by auto
  have e: "ingresses_of (user_id self) (livekit w1) = []"
    using memory_resetIngresses [OF k(1) ids] by simp
  have "mem_ingresses p2 = mem_ingresses (livekit w1) @ [g] \<and> roomName g = user_id self"
    using k(2) by (auto simp: memory_api_def Let_def ingress_options_def)
  then show ?thesis using e k(3) by (simp add: ingresses_of_def)
qed

section \<open>Facts about the webhook route\<close>

lemma find_first_row:
  "(\<forall>z\<in>set pre. \<not> P z) \<Longrightarrow> P x \<Longrightarrow> find P (pre @ x # post) = Some x"
  by (induction pre) simp_all

lemma POST_live_event:
  assumes "authorization req = Some a" and "a \<noteq> []" and "receive (body req) a = Inr ev"
    and "event ev = (if b then ''ingress_started'' else ''ingress_ended'')"
    and "map_option ingressId (ingressInfo ev) = Some i"
    and "\<forall>z\<in>set pre. stream_ingressId z \<noteq> Some i" and "stream_ingressId s = Some i"
  shows "POST receive req (pre @ s # post) = (Response ''OK'' 200, pre @ s\<lparr>isLive := b\<rparr> # post)"
proof -
  have u: "update_first (\<lambda>s. stream_ingressId s = Some i) (\<lambda>s. s\<lparr>isLive := b\<rparr>) (pre @ s # post)
      = Some (s\<lparr>isLive := b\<rparr>, pre @ s\<lparr>isLive := b\<rparr> # post)"
    using assms(6,7) by (intro update_first_found) simp_all
  have "update_isLive ev b (pre @ s # post) = Inr (s\<lparr>isLive := b\<rparr>, pre @ s\<lparr>isLive := b\<rparr> # post)"
    using assms(5) u by (auto simp: update_isLive_def stream_update_def)
  then show ?thesis
    using assms(1-4) by (cases b) (simp_all add: POST_def POST_try_def)
qed

lemma POST_live_event_missing:
  assumes "authorization req = Some a" and "a \<noteq> []" and "receive (body req) a = Inr ev"
    and "event ev = ''ingress_started'' \<or> event ev = ''ingress_ended''"
    and "\<forall>s\<in>set db. \<forall>g. ingressInfo ev = Some g \<longrightarrow> stream_ingressId s \<noteq> Some (ingressId g)"
  shows "POST receive req db = (Response ''Internal Server Error'' 500, db)"
proof -
  have "\<exists>e. update_isLive ev b db = Inl e" for b
  proof (cases "ingressInfo ev")
    case None
    then show ?thesis by (simp add: update_isLive_def)
  next
    case (Some g)
    then have "update_first (\<lambda>s. stream_ingressId s = Some (ingressId g)) (\<lambda>s. s\<lparr>isLive := b\<rparr>) db = None"
      using assms(5) by (simp add: update_first_None)
    then show ?thesis using Some by (simp add: update_isLive_def stream_update_def)
  qed
  then obtain e1 e2 where "update_isLive ev True db = Inl e1" "update_isLive ev False db = Inl e2"
    by blast
  then show ?thesis
    using assms(1-4) by (auto simp: POST_def POST_try_def)
qed

section \<open>The claims\<close>

text \<open>
  C1. For every host identity and every provider, whatever its listing calls return:
  \<open>resetIngresses\<close> issues \<open>deleteIngress\<close> only with the identifier of an ingress that
  \<open>listIngress\<close> returned and whose room name or participant identity equals the host
  identity, and \<open>deleteRoom\<close> only with the host identity itself. Equality is equality
  of strings: in the witness the listing holds ingresses and rooms whose names extend
  \<open>U1\<close> or are a prefix of it, and none of them is deleted.
\<close>

theorem resetIngresses_deletes_only_owned:
  "\<forall>c\<in>fst ` set (issued w (snd (resetIngresses api h w))).
     (\<forall>i. c = DeleteIngress i \<longrightarrow>
          (\<exists>gs p1. ingressClient_listIngress api h (livekit w) = (Inr gs, p1) \<and>
             (\<exists>g\<in>set gs. ingressId g = i \<and> (roomName g = h \<or> participantIdentity g = h)))) \<and>
     (\<forall>n. c = DeleteRoom n \<longrightarrow> n = h)"
proof -
  obtain res w' where run: "resetIngresses api h w = (res, w')"
    by (cases "resetIngresses api h w")
  from resetIngresses_issued_cases [OF run]
  consider e where "issued w w' = [(ListIngress h, Some e)]"
    | e where "issued w w' = [(ListIngress h, None), (ListRooms [h], Some e)]"
    | gs p1 rs evs where "ingressClient_listIngress api h (livekit w) = (Inr gs, p1)"
        "issued w w' = (ListIngress h, None) # (ListRooms [h], None) # evs"
        "sweep_outcome (ingress_plan h gs @ room_plan h rs) res evs"
    by blast
  then have "\<forall>c\<in>fst ` set (issued w w').
     (\<forall>i. c = DeleteIngress i \<longrightarrow>
          (\<exists>gs p1. ingressClient_listIngress api h (livekit w) = (Inr gs, p1) \<and>
             (\<exists>g\<in>set gs. ingressId g = i \<and> (roomName g = h \<or> participantIdentity g = h)))) \<and>
     (\<forall>n. c = DeleteRoom n \<longrightarrow> n = h)"
  proof cases
    case 1
    then show ?thesis by simp
  next
    case 2
    then show ?thesis by simp
  next
    case 3
    have "fst ` set evs \<subseteq> set (ingress_plan h gs @ room_plan h rs)"
      by (rule sweep_outcome_calls [OF 3(3)])
    then have "\<forall>c\<in>fst ` set evs.
        (\<exists>g\<in>set gs. c = DeleteIngress (ingressId g) \<and> deletable h g) \<or> c = DeleteRoom h"
      by (auto simp: ingress_plan_def room_plan_def)
    then have "\<forall>c\<in>fst ` set evs.
        (\<forall>i. c = DeleteIngress i \<longrightarrow>
          (\<exists>g\<in>set gs. ingressId g = i \<and> (roomName g = h \<or> participantIdentity g = h))) \<and>
        (\<forall>n. c = DeleteRoom n \<longrightarrow> n = h)"
      by (fastforce simp: deletable_def)
    then show ?thesis unfolding 3(2) using 3(1) by simp
  qed
  then show ?thesis by (simp add: run)
qed

theorem resetIngresses_deletes_only_owned_witness:
  "ingressClient_listIngress (stub_api decoys decoy_rooms [] (Inr None)) ''U1'' (livekit (world0 []))
     = (Inr decoys, ()) \<and>
   map fst (issued (world0 []) (snd (resetIngresses (stub_api decoys decoy_rooms [] (Inr None)) ''U1'' (world0 []))))
     = [ListIngress ''U1'', ListRooms [''U1''], DeleteIngress ''I1'', DeleteIngress ''I5'', DeleteRoom ''U1''] \<and>
   (\<exists>g\<in>set decoys. ingressId g = ''I5'' \<and> (roomName g = ''U1'' \<or> participantIdentity g = ''U1'')) \<and>
   DeleteIngress ''I3'' \<notin> fst ` set (issued (world0 [])
     (snd (resetIngresses (stub_api decoys decoy_rooms [] (Inr None)) ''U1'' (world0 [])))) \<and>
   DeleteRoom ''U1x'' \<notin> fst ` set (issued (world0 [])
     (snd (resetIngresses (stub_api decoys decoy_rooms [] (Inr None)) ''U1'' (world0 []))))"
proof -
  let ?evs = "issued (world0 []) (snd (resetIngresses (stub_api decoys decoy_rooms [] (Inr None)) ''U1'' (world0 [])))"
  have h: "ingressClient_listIngress (stub_api decoys decoy_rooms [] (Inr None)) ''U1'' (livekit (world0 []))
     = (Inr decoys, ())"
    by (simp add: stub_api_def)
  have t: "map fst ?evs
     = [ListIngress ''U1'', ListRooms [''U1''], DeleteIngress ''I1'', DeleteIngress ''I5'', DeleteRoom ''U1'']"
    by (simp add: resetIngresses_def perform_def outcome_def stub_api_def world0_def issued_def
        decoys_def decoy_rooms_def mk_ingress_def)
  note safe = resetIngresses_deletes_only_owned
    [of "world0 []" "stub_api decoys decoy_rooms [] (Inr None)" "''U1''", unfolded h]
  have "DeleteIngress ''I5'' \<in> set (map fst ?evs)" unfolding t by simp
  then have "DeleteIngress ''I5'' \<in> fst ` set ?evs" by simp
  with safe have a: "\<exists>g\<in>set decoys. ingressId g = ''I5'' \<and> (roomName g = ''U1'' \<or> participantIdentity g = ''U1'')"
    by blast
  have "\<not> (\<exists>g\<in>set decoys. ingressId g = ''I3'' \<and> (roomName g = ''U1'' \<or> participantIdentity g = ''U1''))"
    by (simp add: decoys_def mk_ingress_def)
  with safe have b: "DeleteIngress ''I3'' \<notin> fst ` set ?evs" by blast
  from safe have c: "DeleteRoom ''U1x'' \<notin> fst ` set ?evs" by fastforce
  from h t a b c show ?thesis by (intro conjI)
qed

text \<open>
  C2, as stated, fails. The listing holds two ingresses and a room of host \<open>U1\<close>;
  the provider rejects the deletion of the first ingress. \<open>resetIngresses\<close> rejects
  with that error, and neither the second ingress nor the room sees a deletion attempt.
\<close>

theorem resetIngresses_sweep_counterexample:
  "ingress_plan ''U1'' two_owned @ room_plan ''U1'' [\<lparr>name = ''U1''\<rparr>]
     = [DeleteIngress ''I1'', DeleteIngress ''I2'', DeleteRoom ''U1''] \<and>
   resetIngresses (stub_api two_owned [\<lparr>name = ''U1''\<rparr>] [''I1''] (Inr None)) ''U1'' (world0 [])
     = (Inl (Error ''ingress deletion rejected''),
        \<lparr>livekit = (), streams = [],
         trace = [(ListIngress ''U1'', None), (ListRooms [''U1''], None),
                  (DeleteIngress ''I1'', Some (Error ''ingress deletion rejected''))]\<rparr>) \<and>
   DeleteIngress ''I2'' \<notin> fst ` set (trace (snd
     (resetIngresses (stub_api two_owned [\<lparr>name = ''U1''\<rparr>] [''I1''] (Inr None)) ''U1'' (world0 [])))) \<and>
   DeleteRoom ''U1'' \<notin> fst ` set (trace (snd
     (resetIngresses (stub_api two_owned [\<lparr>name = ''U1''\<rparr>] [''I1''] (Inr None)) ''U1'' (world0 []))))"
  by (simp add: resetIngresses_def perform_def outcome_def stub_api_def world0_def
      two_owned_def mk_ingress_def ingress_plan_def room_plan_def deletable_def)

text \<open>
  C2, amended. Let both listings return, and let \<open>plan\<close> be the deletions the code's
  tests select, in listing order, ingresses before rooms: one for each listed ingress
  with a non-empty identifier whose room name or participant identity is the host
  identity, then one for each listed room of that name. \<open>resetIngresses\<close> attempts the
  deletions of \<open>plan\<close> one at a time, in that order. A deletion that is rejected is the
  last call of the sweep: \<open>resetIngresses\<close> rejects with its error, every deletion before
  it in \<open>plan\<close> was attempted and returned, and none after it is attempted. If
  \<open>resetIngresses\<close> returns, every deletion of \<open>plan\<close> was attempted and returned.
\<close>

theorem resetIngresses_stops_at_first_failure:
  assumes "ingressClient_listIngress api h (livekit w) = (Inr gs, p1)"
    and "roomService_listRooms api [h] p1 = (Inr rs, p2)"
    and "plan =
           map (\<lambda>g. DeleteIngress (ingressId g))
             (filter (\<lambda>g. ingressId g \<noteq> [] \<and> (roomName g = h \<or> participantIdentity g = h)) gs) @
           map (\<lambda>r. DeleteRoom (name r)) (filter (\<lambda>r. name r = h) rs)"
  shows "case fst (resetIngresses api h w) of
           Inr _ \<Rightarrow>
             issued w (snd (resetIngresses api h w)) =
               map (\<lambda>c. (c, None)) (ListIngress h # ListRooms [h] # plan)
         | Inl e \<Rightarrow>
             (\<exists>k<length plan.
                issued w (snd (resetIngresses api h w)) =
                  map (\<lambda>c. (c, None)) (ListIngress h # ListRooms [h] # take k plan)
                  @ [(plan ! k, Some e)])"
proof -
  have d: "deletable h = (\<lambda>g. ingressId g \<noteq> [] \<and> (roomName g = h \<or> participantIdentity g = h))"
    by (rule ext) (simp add: deletable_def)
  have plan: "plan = ingress_plan h gs @ room_plan h rs"
    using assms(3) by (simp add: ingress_plan_def room_plan_def d)
  obtain res w' where run: "resetIngresses api h w = (res, w')"
    by (cases "resetIngresses api h w")
  from resetIngresses_listed [OF assms(1,2) run] obtain evs where
    e: "trace w' = trace w @ (ListIngress h, None) # (ListRooms [h], None) # evs"
       "sweep_outcome plan res evs"
    unfolding plan by auto
  have i: "issued w w' = (ListIngress h, None) # (ListRooms [h], None) # evs"
    by (rule issued_append [OF e(1)])
  show ?thesis
  proof (cases res)
    case (Inl err)
    with e(2) obtain k where k: "k < length plan"
      "evs = succeeded (take k plan) @ [(plan ! k, Some err)]"
      by (auto simp: sweep_outcome_def)
    have "issued w w' =
        map (\<lambda>c. (c, None)) (ListIngress h # ListRooms [h] # take k plan)
        @ [(plan ! k, Some err)]"
      using i k(2) by (simp add: succeeded_def)
    with k(1) show ?thesis unfolding run Inl by (simp only: fst_conv snd_conv sum.case) blast
  next
    case (Inr u)
    with e(2) have "evs = succeeded plan"
      by (simp add: sweep_outcome_def)
    then show ?thesis using i Inr by (simp add: run succeeded_def)
  qed
qed

theorem resetIngresses_stops_at_first_failure_witness:
  "ingressClient_listIngress (stub_api two_owned [\<lparr>name = ''U1''\<rparr>] [''I2''] (Inr None)) ''U1'' (livekit (world0 []))
      = (Inr two_owned, ()) \<and>
   roomService_listRooms (stub_api two_owned [\<lparr>name = ''U1''\<rparr>] [''I2''] (Inr None)) [''U1''] ()
      = (Inr [\<lparr>name = ''U1''\<rparr>], ()) \<and>
   [DeleteIngress ''I1'', DeleteIngress ''I2'', DeleteRoom ''U1''] =
      map (\<lambda>g. DeleteIngress (ingressId g))
        (filter (\<lambda>g. ingressId g \<noteq> [] \<and> (roomName g = ''U1'' \<or> participantIdentity g = ''U1'')) two_owned) @
      map (\<lambda>r. DeleteRoom (name r)) (filter (\<lambda>r. name r = ''U1'') [\<lparr>name = ''U1''\<rparr>]) \<and>
   fst (resetIngresses (stub_api two_owned [\<lparr>name = ''U1''\<rparr>] [''I2''] (Inr None)) ''U1'' (world0 []))
      = Inl (Error ''ingress deletion rejected'') \<and>
   (\<exists>k<length [DeleteIngress ''I1'', DeleteIngress ''I2'', DeleteRoom ''U1''].
      issued (world0 []) (snd (resetIngresses (stub_api two_owned [\<lparr>name = ''U1''\<rparr>] [''I2''] (Inr None)) ''U1'' (world0 []))) =
        map (\<lambda>c. (c, None))
          (ListIngress ''U1'' # ListRooms [''U1''] #
           take k [DeleteIngress ''I1'', DeleteIngress ''I2'', DeleteRoom ''U1''])
        @ [([DeleteIngress ''I1'', DeleteIngress ''I2'', DeleteRoom ''U1''] ! k,
            Some (Error ''ingress deletion rejected''))]) \<and>
   issued (world0 []) (snd (resetIngresses (stub_api two_owned [\<lparr>name = ''U1''\<rparr>] [''I2''] (Inr None)) ''U1'' (world0 [])))
      = [(ListIngress ''U1'', None), (ListRooms [''U1''], None), (DeleteIngress ''I1'', None),
         (DeleteIngress ''I2'', Some (Error ''ingress deletion rejected''))]"
proof -
  let ?api = "stub_api two_owned [\<lparr>name = ''U1''\<rparr>] [''I2''] (Inr None)"
  have h1: "ingressClient_listIngress ?api ''U1'' (livekit (world0 [])) = (Inr two_owned, ())"
    by (simp add: stub_api_def)
  have h2: "roomService_listRooms ?api [''U1''] () = (Inr [\<lparr>name = ''U1''\<rparr>], ())"
    by (simp add: stub_api_def)
  have h3: "[DeleteIngress ''I1'', DeleteIngress ''I2'', DeleteRoom ''U1''] =
      map (\<lambda>g. DeleteIngress (ingressId g))
        (filter (\<lambda>g. ingressId g \<noteq> [] \<and> (roomName g = ''U1'' \<or> participantIdentity g = ''U1'')) two_owned) @
      map (\<lambda>r. DeleteRoom (name r)) (filter (\<lambda>r. name r = ''U1'') [\<lparr>name = ''U1''\<rparr>])"
    by (simp add: two_owned_def mk_ingress_def)
  have r: "fst (resetIngresses ?api ''U1'' (world0 [])) = Inl (Error ''ingress deletion rejected'')"
    by (simp add: resetIngresses_def perform_def outcome_def stub_api_def world0_def
        two_owned_def mk_ingress_def)
  have t: "issued (world0 []) (snd (resetIngresses ?api ''U1'' (world0 [])))
      = [(ListIngress ''U1'', None), (ListRooms [''U1''], None), (DeleteIngress ''I1'', None),
         (DeleteIngress ''I2'', Some (Error ''ingress deletion rejected''))]"
    by (simp add: resetIngresses_def perform_def outcome_def stub_api_def world0_def
        two_owned_def mk_ingress_def issued_def)
  have "\<exists>k<length [DeleteIngress ''I1'', DeleteIngress ''I2'', DeleteRoom ''U1''].
      issued (world0 []) (snd (resetIngresses ?api ''U1'' (world0 []))) =
        map (\<lambda>c. (c, None))
          (ListIngress ''U1'' # ListRooms [''U1''] #
           take k [DeleteIngress ''I1'', DeleteIngress ''I2'', DeleteRoom ''U1''])
        @ [([DeleteIngress ''I1'', DeleteIngress ''I2'', DeleteRoom ''U1''] ! k,
            Some (Error ''ingress deletion rejected''))]"
    using resetIngresses_stops_at_first_failure [OF h1 h2 h3] unfolding r
    by (simp only: sum.case)
  with h1 h2 h3 r t show ?thesis by (intro conjI)
qed

text \<open>
  C4. When the create-ingress call of the provider returns nothing, or an ingress with an
  empty URL or an empty stream key, \<open>createIngress\<close> rejects, with the error of the
  failed check, and the Stream table is as it was before the action: both checks come
  before \<open>db.stream.update\<close>.
\<close>

theorem createIngress_incomplete_response:
  assumes "getSelf = Inr self"
    and "resetIngresses api (user_id self) w = (Inr (), w1)"
    and "ingressClient_createIngress api t (ingress_options self t) (livekit w1) = (Inr resp, p2)"
    and "resp = None \<or> (\<exists>g. resp = Some g \<and> (url g = [] \<or> streamKey g = []))"
  shows "fst (createIngress api getSelf t w) =
           Inl (Error (if resp = None
                       then ''LiveKit failed to create ingress - no response received''
                       else ''LiveKit created ingress but did not provide URL or stream key'')) \<and>
         streams (snd (createIngress api getSelf t w)) = streams w"
proof -
  have c1: "createIngress_catch (Error ''LiveKit failed to create ingress - no response received'')
      = Error ''LiveKit failed to create ingress - no response received''"
    by (simp add: createIngress_catch_def Error_def)
  have c2: "createIngress_catch (Error ''LiveKit created ingress but did not provide URL or stream key'')
      = Error ''LiveKit created ingress but did not provide URL or stream key''"
    by (simp add: createIngress_catch_def Error_def)
  have "fst (createIngress api getSelf t w) =
           Inl (Error (if resp = None
                       then ''LiveKit failed to create ingress - no response received''
                       else ''LiveKit created ingress but did not provide URL or stream key''))"
    using assms c1 c2
    by (auto simp: createIngress_def createIngress_try_def Let_def perform_def)
  moreover from this obtain e w' where "createIngress api getSelf t w = (Inl e, w')"
    by (cases "createIngress api getSelf t w") auto
  then have "streams (snd (createIngress api getSelf t w)) = streams w"
    using createIngress_rejects_streams [of api getSelf t w e w'] by simp
  ultimately show ?thesis by simp
qed

theorem createIngress_incomplete_response_witness:
  "(Inr alice :: js_error + user) = Inr alice \<and>
   resetIngresses (stub_api [] [] [] (Inr (Some ((mk_ingress ''I7'' ''U1'' ''U1'')\<lparr>streamKey := []\<rparr>))))
      (user_id alice) (world0 two_streams)
     = (Inr (), \<lparr>livekit = (), streams = two_streams,
                 trace = [(ListIngress ''U1'', None), (ListRooms [''U1''], None)]\<rparr>) \<and>
   fst (createIngress (stub_api [] [] [] (Inr (Some ((mk_ingress ''I7'' ''U1'' ''U1'')\<lparr>streamKey := []\<rparr>))))
      (Inr alice) RTMP_INPUT (world0 two_streams))
     = Inl (Error ''LiveKit created ingress but did not provide URL or stream key'') \<and>
   streams (snd (createIngress (stub_api [] [] [] (Inr (Some ((mk_ingress ''I7'' ''U1'' ''U1'')\<lparr>streamKey := []\<rparr>))))
      (Inr alice) RTMP_INPUT (world0 two_streams)))
     = two_streams"
proof -
  let ?g = "(mk_ingress ''I7'' ''U1'' ''U1'')\<lparr>streamKey := []\<rparr>"
  let ?api = "stub_api [] [] [] (Inr (Some ?g))"
  let ?w1 = "\<lparr>livekit = (), streams = two_streams,
              trace = [(ListIngress ''U1'', None), (ListRooms [''U1''], None)]\<rparr>"
  have h2: "resetIngresses ?api (user_id alice) (world0 two_streams) = (Inr (), ?w1)"
    by (simp add: resetIngresses_def perform_def outcome_def stub_api_def world0_def alice_def)
  have h3: "ingressClient_createIngress ?api RTMP_INPUT (ingress_options alice RTMP_INPUT) (livekit ?w1)
      = (Inr (Some ?g), ())"
    by (simp add: stub_api_def)
  have h4: "Some ?g = None \<or> (\<exists>g. Some ?g = Some g \<and> (url g = [] \<or> streamKey g = []))"
    by simp
  from createIngress_incomplete_response [OF refl h2 h3 h4] h2 show ?thesis
    by (simp add: world0_def)
qed

text \<open>
  C10. When \<open>createIngress\<close> resolves to an ingress \<open>g\<close>, then \<open>g\<close> is what the provider's
  create-ingress call returned, and the Stream table differs from the one before the
  action in one row only, the first (by the unique key, the only) row whose \<open>userId\<close> is
  the caller's \<open>id\<close>: in it \<open>ingressId\<close>, \<open>serverUrl\<close> and \<open>streamKey\<close> hold the values of
  \<open>g\<close>, and every other column, \<open>isLive\<close> among them, is as before.
\<close>

theorem createIngress_persists_credentials:
  assumes "createIngress api getSelf t w = (Inr g, w')"
  shows "\<exists>self pre s post.
           getSelf = Inr self \<and>
           streams w = pre @ s # post \<and>
           (\<forall>z\<in>set pre. userId z \<noteq> user_id self) \<and> userId s = user_id self \<and>
           streams w' =
             pre @ s\<lparr>stream_ingressId := Some (ingressId g), serverUrl := Some (url g),
                     stream_streamKey := Some (streamKey g)\<rparr> # post \<and>
           isLive (streams w' ! length pre) = isLive s \<and>
           (\<exists>w1 p2. resetIngresses api (user_id self) w = (Inr (), w1) \<and>
              ingressClient_createIngress api t (ingress_options self t) (livekit w1)
                = (Inr (Some g), p2))"
proof -
  let ?f = "\<lambda>s. s\<lparr>stream_ingressId := Some (ingressId g), serverUrl := Some (url g),
                   stream_streamKey := Some (streamKey g)\<rparr>"
  from createIngress_success [OF assms] obtain self w1 p2 s' db' where
    k: "getSelf = Inr self"
       "resetIngresses api (user_id self) w = (Inr (), w1)"
       "ingressClient_createIngress api t (ingress_options self t) (livekit w1) = (Inr (Some g), p2)"
       "stream_update (\<lambda>s. userId s = user_id self) ?f (streams w1) = Inr (s', db')"
       "w' = w1\<lparr>livekit := p2, streams := db',
               trace := trace w1 @ [(CreateIngress t (ingress_options self t), None),
                                    (RevalidatePath (''/u/'' @ username self @ ''/keys''), None)]\<rparr>"
    by blast
  have s1: "streams w1 = streams w" by (rule resetIngresses_streams [OF k(2)])
  have "update_first (\<lambda>s. userId s = user_id self) ?f (streams w) = Some (s', db')"
    using k(4) s1 by (simp add: stream_update_def split: option.splits)
  from update_first_Some [OF this] obtain pre s post where
    u: "streams w = pre @ s # post" "\<forall>z\<in>set pre. userId z \<noteq> user_id self"
       "userId s = user_id self" "db' = pre @ ?f s # post"
    by blast
  have a: "streams w' = pre @ ?f s # post" using k(5) u(4) by simp
  have b: "isLive (streams w' ! length pre) = isLive s" unfolding a by simp
  show ?thesis
    by (intro exI [of _ self] exI [of _ pre] exI [of _ s] exI [of _ post] conjI
        k(1) u(1) u(2) u(3) a b exI [of _ w1] exI [of _ p2] k(2) k(3))
qed

theorem createIngress_persists_credentials_witness:
  "createIngress (stub_api [] [] [] (Inr (Some (mk_ingress ''I7'' ''U1'' ''U1''))))
      (Inr alice) RTMP_INPUT (world0 two_streams)
     = (Inr (mk_ingress ''I7'' ''U1'' ''U1''),
        \<lparr>livekit = (),
         streams = [mk_stream ''U2'' False,
                    (mk_stream ''U1'' True)
                      \<lparr>stream_ingressId := Some ''I7'', serverUrl := Some ''rtmp://ingest'',
                       stream_streamKey := Some ''key-I7''\<rparr>],
         trace = [(ListIngress ''U1'', None), (ListRooms [''U1''], None),
                  (CreateIngress RTMP_INPUT (ingress_options alice RTMP_INPUT), None),
                  (RevalidatePath ''/u/alice/keys'', None)]\<rparr>) \<and>
   (\<exists>pre s post.
      streams (world0 two_streams) = pre @ s # post \<and>
      (\<forall>z\<in>set pre. userId z \<noteq> user_id alice) \<and> userId s = user_id alice \<and>
      [mk_stream ''U2'' False,
       (mk_stream ''U1'' True)
         \<lparr>stream_ingressId := Some ''I7'', serverUrl := Some ''rtmp://ingest'',
          stream_streamKey := Some ''key-I7''\<rparr>] =
        pre @ s\<lparr>stream_ingressId := Some ''I7'', serverUrl := Some ''rtmp://ingest'',
                stream_streamKey := Some ''key-I7''\<rparr> # post)"
proof -
  let ?g = "mk_ingress ''I7'' ''U1'' ''U1''"
  let ?w' = "\<lparr>livekit = (),
         streams = [mk_stream ''U2'' False,
                    (mk_stream ''U1'' True)
                      \<lparr>stream_ingressId := Some ''I7'', serverUrl := Some ''rtmp://ingest'',
                       stream_streamKey := Some ''key-I7''\<rparr>],
         trace = [(ListIngress ''U1'', None), (ListRooms [''U1''], None),
                  (CreateIngress RTMP_INPUT (ingress_options alice RTMP_INPUT), None),
                  (RevalidatePath ''/u/alice/keys'', None)]\<rparr>"
  have h: "createIngress (stub_api [] [] [] (Inr (Some ?g))) (Inr alice) RTMP_INPUT (world0 two_streams)
      = (Inr ?g, ?w')"
    by (simp add: createIngress_def createIngress_try_def resetIngresses_def perform_def
        outcome_def stub_api_def world0_def alice_def two_streams_def mk_stream_def
        mk_ingress_def stream_update_def Let_def)
  from createIngress_persists_credentials [OF h] obtain self pre s post where
    k: "(Inr alice :: js_error + user) = Inr self"
       "streams (world0 two_streams) = pre @ s # post"
       "\<forall>z\<in>set pre. userId z \<noteq> user_id self" "userId s = user_id self"
       "streams ?w' = pre @ s\<lparr>stream_ingressId := Some (ingressId ?g), serverUrl := Some (url ?g),
                     stream_streamKey := Some (streamKey ?g)\<rparr> # post"
    by blast
  have self: "self = alice" using k(1) by simp
  have g: "ingressId ?g = ''I7''" "url ?g = ''rtmp://ingest''" "streamKey ?g = ''key-I7''"
    by (simp_all add: mk_ingress_def)
  have "streams (world0 two_streams) = pre @ s # post \<and>
      (\<forall>z\<in>set pre. userId z \<noteq> user_id alice) \<and> userId s = user_id alice \<and>
      [mk_stream ''U2'' False,
       (mk_stream ''U1'' True)
         \<lparr>stream_ingressId := Some ''I7'', serverUrl := Some ''rtmp://ingest'',
          stream_streamKey := Some ''key-I7''\<rparr>] =
        pre @ s\<lparr>stream_ingressId := Some ''I7'', serverUrl := Some ''rtmp://ingest'',
                stream_streamKey := Some ''key-I7''\<rparr> # post"
    using k(2,3,4,5) unfolding self g by simp
  then show ?thesis using h by blast
qed

text \<open>
  C9. When the sweep of \<open>resetIngresses\<close> has gone through, \<open>createIngress\<close> calls the
  provider's create-ingress exactly once, with the input type it was given and with
  options that name the caller and depend on the input type only: for \<open>WHIP_INPUT\<close>
  they ask to bypass transcoding and set neither \<open>video\<close> nor \<open>audio\<close>; for every other
  input type they leave \<open>bypassTranscoding\<close> unset and ask for a camera track with the
  preset \<open>H264_1080P_30FPS_3_LAYERS\<close> and a microphone track with the preset
  \<open>OPUS_STEREO_96KBPS\<close>.
\<close>

theorem createIngress_options_by_input:
  assumes "resetIngresses api (user_id self) w = (Inr (), w1)"
  shows "\<exists>opts.
           CreateIngress t opts \<in> fst ` set (issued w (snd (createIngress api (Inr self) t w))) \<and>
           (\<forall>t' opts'. CreateIngress t' opts' \<in> fst ` set (issued w (snd (createIngress api (Inr self) t w)))
               \<longrightarrow> t' = t \<and> opts' = opts) \<and>
           opt_name opts = username self \<and> opt_roomName opts = user_id self \<and>
           opt_participantName opts = username self \<and>
           opt_participantIdentity opts = user_id self \<and>
           (if t = WHIP_INPUT
            then bypassTranscoding opts = Some True \<and> video opts = None \<and> audio opts = None
            else bypassTranscoding opts = None \<and>
                 video opts = Some \<lparr>video_source = CAMERA, video_preset = H264_1080P_30FPS_3_LAYERS\<rparr> \<and>
                 audio opts = Some \<lparr>audio_source = MICROPHONE, audio_preset = OPUS_STEREO_96KBPS\<rparr>)"
proof -
  let ?evs = "issued w (snd (createIngress api (Inr self) t w))"
  let ?opts = "ingress_options self t"
  from createIngress_issued [OF assms, of t] obtain out tail where
    k: "?evs = issued w w1 @ (CreateIngress t ?opts, out) # tail"
       "tail = [] \<or> tail = [(RevalidatePath (''/u/'' @ username self @ ''/keys''), None)]"
    by auto
  have a: "CreateIngress t ?opts \<in> fst ` set ?evs"
    unfolding k(1) by force
  have b: "\<forall>t' opts'. CreateIngress t' opts' \<in> fst ` set ?evs \<longrightarrow> t' = t \<and> opts' = ?opts"
  proof (intro allI impI)
    fix t' opts'
    assume "CreateIngress t' opts' \<in> fst ` set ?evs"
    moreover have "CreateIngress t' opts' \<notin> fst ` set (issued w w1)"
      by (rule resetIngresses_no_create [OF assms])
    moreover have "CreateIngress t' opts' \<notin> fst ` set tail" using k(2) by auto
    ultimately have "CreateIngress t' opts' = CreateIngress t ?opts"
      unfolding k(1) by auto
    then show "t' = t \<and> opts' = ?opts" by simp
  qed
  have c: "opt_name ?opts = username self \<and> opt_roomName ?opts = user_id self \<and>
           opt_participantName ?opts = username self \<and>
           opt_participantIdentity ?opts = user_id self \<and>
           (if t = WHIP_INPUT
            then bypassTranscoding ?opts = Some True \<and> video ?opts = None \<and> audio ?opts = None
            else bypassTranscoding ?opts = None \<and>
                 video ?opts = Some \<lparr>video_source = CAMERA, video_preset = H264_1080P_30FPS_3_LAYERS\<rparr> \<and>
                 audio ?opts = Some \<lparr>audio_source = MICROPHONE, audio_preset = OPUS_STEREO_96KBPS\<rparr>)"
    by (simp add: ingress_options_def Let_def)
  from a b c show ?thesis by (intro exI [of _ ?opts]) blast
qed

theorem createIngress_options_by_input_witness:
  "resetIngresses (stub_api [] [] [] (Inr None)) (user_id alice) (world0 two_streams)
     = (Inr (), \<lparr>livekit = (), streams = two_streams,
                 trace = [(ListIngress ''U1'', None), (ListRooms [''U1''], None)]\<rparr>) \<and>
   map fst (issued (world0 two_streams)
      (snd (createIngress (stub_api [] [] [] (Inr None)) (Inr alice) WHIP_INPUT (world0 two_streams))))
     = [ListIngress ''U1'', ListRooms [''U1''],
        CreateIngress WHIP_INPUT
          \<lparr>opt_name = ''alice'', opt_roomName = ''U1'', opt_participantName = ''alice'',
           opt_participantIdentity = ''U1'', bypassTranscoding = Some True,
           video = None, audio = None\<rparr>] \<and>
   (\<exists>opts.
      CreateIngress RTMP_INPUT opts \<in> fst ` set (issued (world0 two_streams)
        (snd (createIngress (stub_api [] [] [] (Inr None)) (Inr alice) RTMP_INPUT (world0 two_streams)))) \<and>
      bypassTranscoding opts = None \<and>
      video opts = Some \<lparr>video_source = CAMERA, video_preset = H264_1080P_30FPS_3_LAYERS\<rparr> \<and>
      audio opts = Some \<lparr>audio_source = MICROPHONE, audio_preset = OPUS_STEREO_96KBPS\<rparr>)"
proof -
  let ?api = "stub_api [] [] [] (Inr None)"
  have h: "resetIngresses ?api (user_id alice) (world0 two_streams)
     = (Inr (), \<lparr>livekit = (), streams = two_streams,
                 trace = [(ListIngress ''U1'', None), (ListRooms [''U1''], None)]\<rparr>)"
    by (simp add: resetIngresses_def perform_def outcome_def stub_api_def world0_def alice_def)
  have w: "map fst (issued (world0 two_streams)
      (snd (createIngress ?api (Inr alice) WHIP_INPUT (world0 two_streams))))
     = [ListIngress ''U1'', ListRooms [''U1''],
        CreateIngress WHIP_INPUT
          \<lparr>opt_name = ''alice'', opt_roomName = ''U1'', opt_participantName = ''alice'',
           opt_participantIdentity = ''U1'', bypassTranscoding = Some True,
           video = None, audio = None\<rparr>]"
    by (simp add: createIngress_def createIngress_try_def resetIngresses_def perform_def
        outcome_def stub_api_def world0_def alice_def issued_def ingress_options_def Let_def)
  from createIngress_options_by_input [OF h, of RTMP_INPUT] h w show ?thesis
    by (simp only: ingressInput.distinct if_False) blast
qed

text \<open>
  C6. Once \<open>getSelf\<close> has resolved to the caller, the calls \<open>createIngress\<close> issues begin
  with the whole run of \<open>resetIngresses\<close> on the caller's \<open>id\<close>, which holds no
  create-ingress call; if that run rejects nothing follows, and otherwise the next call
  is the provider's create-ingress. So create-ingress is never called without the sweep
  before it, for any provider. Against the provider kept in memory, whose listing and
  deletions do what section 6 says, every \<open>createIngress\<close> that resolves leaves exactly
  one ingress for the caller (hence at most one), the one it returns, given that the
  ingresses the provider held for the caller had identifiers. The ingresses for a
  caller are those of the room named by the caller's \<open>id\<close>: that is the scope of the
  listing in \<open>resetIngresses\<close> and the room of every ingress \<open>createIngress\<close> asks for.
\<close>

theorem createIngress_resets_before_create:
  assumes "resetIngresses api (user_id self) w = (r, w1)"
  shows "(\<exists>rest.
            issued w (snd (createIngress api (Inr self) t w)) = issued w w1 @ rest \<and>
            (\<forall>t' opts. CreateIngress t' opts \<notin> fst ` set (issued w w1)) \<and>
            (case r of
               Inl e \<Rightarrow> rest = []
             | Inr _ \<Rightarrow> (\<exists>out tail. rest = (CreateIngress t (ingress_options self t), out) # tail))) \<and>
         ((\<forall>x\<in>set (mem_ingresses (livekit m)). roomName x = user_id self \<longrightarrow> ingressId x \<noteq> []) \<longrightarrow>
          createIngress memory_api (Inr self) t m = (Inr g, m') \<longrightarrow>
          ingresses_of (user_id self) (livekit m') = [g] \<and>
          length (ingresses_of (user_id self) (livekit m')) \<le> 1)"
proof -
  have a: "\<forall>t' opts. CreateIngress t' opts \<notin> fst ` set (issued w w1)"
    using resetIngresses_no_create [OF assms] by blast
  have "\<exists>rest.
            issued w (snd (createIngress api (Inr self) t w)) = issued w w1 @ rest \<and>
            (case r of
               Inl e \<Rightarrow> rest = []
             | Inr _ \<Rightarrow> (\<exists>out tail. rest = (CreateIngress t (ingress_options self t), out) # tail))"
  proof (cases r)
    case (Inl e)
    then show ?thesis using createIngress_issued [OF assms, of t] by simp
  next
    case (Inr u)
    with createIngress_issued [OF assms, of t] obtain out tail where
      "issued w (snd (createIngress api (Inr self) t w)) =
         issued w w1 @ (CreateIngress t (ingress_options self t), out) # tail"
      by auto
    then show ?thesis unfolding Inr by (simp only: sum.case) blast
  qed
  with a have first: "\<exists>rest.
            issued w (snd (createIngress api (Inr self) t w)) = issued w w1 @ rest \<and>
            (\<forall>t' opts. CreateIngress t' opts \<notin> fst ` set (issued w w1)) \<and>
            (case r of
               Inl e \<Rightarrow> rest = []
             | Inr _ \<Rightarrow> (\<exists>out tail. rest = (CreateIngress t (ingress_options self t), out) # tail))"
    by blast
  have second: "(\<forall>x\<in>set (mem_ingresses (livekit m)). roomName x = user_id self \<longrightarrow> ingressId x \<noteq> []) \<longrightarrow>
          createIngress memory_api (Inr self) t m = (Inr g, m') \<longrightarrow>
          ingresses_of (user_id self) (livekit m') = [g] \<and>
          length (ingresses_of (user_id self) (livekit m')) \<le> 1"
    using memory_createIngress [of self t m g m'] by simp
  from first second show ?thesis by (rule conjI)
qed

theorem createIngress_resets_before_create_witness:
  "fst (resetIngresses memory_api (user_id alice) memory_world) = Inr () \<and>
   filter (\<lambda>x. roomName x = user_id alice \<and> ingressId x = []) (mem_ingresses (livekit memory_world)) = [] \<and>
   fst (createIngress memory_api (Inr alice) RTMP_INPUT memory_world)
     = Inr \<lparr>ingressId = ''IN_xx'', roomName = ''U1'', participantIdentity = ''U1'',
            participantName = ''alice'', url = ''rtmp://ingest'', streamKey = ''key-kk''\<rparr> \<and>
   map fst (issued memory_world (snd (createIngress memory_api (Inr alice) RTMP_INPUT memory_world)))
     = [ListIngress ''U1'', ListRooms [''U1''], DeleteIngress ''I1'', DeleteRoom ''U1'',
        CreateIngress RTMP_INPUT (ingress_options alice RTMP_INPUT),
        RevalidatePath ''/u/alice/keys''] \<and>
   ingresses_of (user_id alice) (livekit (snd (createIngress memory_api (Inr alice) RTMP_INPUT memory_world)))
     = [\<lparr>ingressId = ''IN_xx'', roomName = ''U1'', participantIdentity = ''U1'',
         participantName = ''alice'', url = ''rtmp://ingest'', streamKey = ''key-kk''\<rparr>] \<and>
   (\<exists>rest.
      issued memory_world (snd (createIngress memory_api (Inr alice) RTMP_INPUT memory_world)) =
        issued memory_world (snd (resetIngresses memory_api (user_id alice) memory_world)) @ rest \<and>
      (\<exists>out tail. rest = (CreateIngress RTMP_INPUT (ingress_options alice RTMP_INPUT), out) # tail))"
proof -
  let ?g = "\<lparr>ingressId = ''IN_xx'', roomName = ''U1'', participantIdentity = ''U1'',
            participantName = ''alice'', url = ''rtmp://ingest'', streamKey = ''key-kk''\<rparr>"
  let ?run = "createIngress memory_api (Inr alice) RTMP_INPUT memory_world"
  let ?reset = "resetIngresses memory_api (user_id alice) memory_world"
  have r: "fst ?reset = Inr ()"
    by (simp add: resetIngresses_def perform_def outcome_def memory_api_def memory_world_def
        alice_def mk_ingress_def)
  have h1: "?reset = (Inr (), snd ?reset)"
    using r by (metis prod.collapse)
  have ids: "\<forall>x\<in>set (mem_ingresses (livekit memory_world)). roomName x = user_id alice \<longrightarrow> ingressId x \<noteq> []"
    by (simp add: memory_world_def mk_ingress_def alice_def)
  have c: "fst ?run = Inr ?g"
    by (simp add: createIngress_def createIngress_try_def resetIngresses_def perform_def
        outcome_def memory_api_def memory_world_def alice_def mk_ingress_def two_streams_def
        mk_stream_def stream_update_def ingress_options_def Let_def numeral_2_eq_2)
  have h2: "?run = (Inr ?g, snd ?run)"
    using c by (metis prod.collapse)
  have t: "map fst (issued memory_world (snd ?run))
     = [ListIngress ''U1'', ListRooms [''U1''], DeleteIngress ''I1'', DeleteRoom ''U1'',
        CreateIngress RTMP_INPUT (ingress_options alice RTMP_INPUT),
        RevalidatePath ''/u/alice/keys'']"
    by (simp add: createIngress_def createIngress_try_def resetIngresses_def perform_def
        outcome_def memory_api_def memory_world_def alice_def mk_ingress_def two_streams_def
        mk_stream_def stream_update_def ingress_options_def Let_def numeral_2_eq_2 issued_def)
  have ids': "filter (\<lambda>x. roomName x = user_id alice \<and> ingressId x = [])
      (mem_ingresses (livekit memory_world)) = []"
    using ids by (simp add: filter_empty_conv)
  from createIngress_resets_before_create [OF h1, of RTMP_INPUT memory_world ?g "snd ?run"]
    ids ids' h2 r c t
  show ?thesis by (simp only: sum.case simp_thms) blast
qed

text \<open>
  C7. A request without an \<open>Authorization\<close> header is answered with status 400, whatever
  the verifier and whatever the Stream table hold, and the table is left as it was.
\<close>

theorem POST_no_authorization:
  assumes "authorization req = None"
  shows "POST receive req db = (Response ''No authorization header'' 400, db)"
  using assms by (simp add: POST_def POST_try_def)

theorem POST_no_authorization_witness:
  "authorization (signed_request\<lparr>authorization := None\<rparr>) = None \<and>
   POST (accept_as ''ingress_started'' ''I1'') (signed_request\<lparr>authorization := None\<rparr>) provisioned_streams
     = (Response ''No authorization header'' 400, provisioned_streams) \<and>
   status (fst (POST (accept_as ''ingress_started'' ''I1'') (signed_request\<lparr>authorization := None\<rparr>)
                  provisioned_streams)) = 400"
proof -
  have h: "authorization (signed_request\<lparr>authorization := None\<rparr>) = None" by simp
  from POST_no_authorization [OF h] h show ?thesis by simp
qed

text \<open>
  C8. When the header is present and the verifier throws (bad signature, body that does
  not parse), the request is answered with status 500, not 400, and the Stream table is
  left as it was.
\<close>

theorem POST_verifier_rejects:
  assumes "authorization req = Some auth" and "auth \<noteq> []"
    and "receive (body req) auth = Inl e"
  shows "POST receive req db = (Response ''Internal Server Error'' 500, db) \<and>
         status (fst (POST receive req db)) = 500 \<and> status (fst (POST receive req db)) \<noteq> 400"
  using assms by (simp add: POST_def POST_try_def)

theorem POST_verifier_rejects_witness:
  "authorization signed_request = Some ''signature'' \<and> ''signature'' \<noteq> [] \<and>
   POST (\<lambda>b a. Inl (Error ''sha256 checksum of body does not match'')) signed_request provisioned_streams
     = (Response ''Internal Server Error'' 500, provisioned_streams)"
proof -
  have h1: "authorization signed_request = Some ''signature''" by (simp add: signed_request_def)
  have h2: "''signature'' \<noteq> []" by simp
  have h3: "(\<lambda>b a. Inl (Error ''sha256 checksum of body does not match'')) (body signed_request) ''signature''
      = (Inl (Error ''sha256 checksum of body does not match'') :: js_error + webhookEvent)"
    by simp
  from POST_verifier_rejects [OF h1 h2 h3] h1 show ?thesis by simp
qed

text \<open>
  C3. The route does not do what the claim asks. A signed \<open>ingress_started\<close> event names
  ingress \<open>I404\<close>, and no row of the Stream table has that identifier. The claim asks
  for status 200 and an unchanged table. In the route \<open>db.stream.update\<close> rejects, nothing
  between the update and the catch block handles a missing row, and the catch block
  answers with status 500; the table is unchanged. The same holds for \<open>ingress_ended\<close>.
\<close>

theorem POST_unknown_ingress_answers_500:
  "isLive_of ''I404'' provisioned_streams = None \<and>
   POST (accept_as ''ingress_started'' ''I404'') signed_request provisioned_streams
     = (Response ''Internal Server Error'' 500, provisioned_streams) \<and>
   status (fst (POST (accept_as ''ingress_started'' ''I404'') signed_request provisioned_streams)) \<noteq> 200 \<and>
   POST (accept_as ''ingress_ended'' ''I404'') signed_request provisioned_streams
     = (Response ''Internal Server Error'' 500, provisioned_streams)"
  by (simp add: POST_def POST_try_def update_isLive_def stream_update_def accept_as_def
      signed_request_def provisioned_streams_def mk_stream_def mk_ingress_def isLive_of_def)

text \<open>
  C5. Let some row of the Stream table have ingress identifier \<open>i\<close>, and take the first
  (by the unique key, the only) such row. A signed \<open>ingress_started\<close> event for \<open>i\<close> is
  answered with status 200 and assigns \<open>True\<close> to \<open>isLive\<close> of that row; a signed
  \<open>ingress_ended\<close> event for \<open>i\<close> is answered with status 200 and assigns \<open>False\<close>. Either
  does so whatever the flag was, and changes nothing else in the table. So
  \<open>ingress_ended\<close> after \<open>ingress_started\<close> leaves the flag \<open>False\<close>, \<open>ingress_started\<close>
  after \<open>ingress_ended\<close> leaves it \<open>True\<close>, and delivering either event a second time
  gives the same answer and the same table as delivering it once.
\<close>

theorem POST_isLive_assignment:
  assumes known: "\<exists>s\<in>set db. stream_ingressId s = Some i"
    and started: "authorization req1 = Some a1" "a1 \<noteq> []" "receive (body req1) a1 = Inr ev1"
      "event ev1 = ''ingress_started''" "map_option ingressId (ingressInfo ev1) = Some i"
    and ended: "authorization req2 = Some a2" "a2 \<noteq> []" "receive (body req2) a2 = Inr ev2"
      "event ev2 = ''ingress_ended''" "map_option ingressId (ingressInfo ev2) = Some i"
  shows "(\<exists>pre s post. db = pre @ s # post \<and> stream_ingressId s = Some i \<and>
            (\<forall>z\<in>set pre. stream_ingressId z \<noteq> Some i) \<and>
            POST receive req1 db = (Response ''OK'' 200, pre @ s\<lparr>isLive := True\<rparr> # post) \<and>
            POST receive req2 db = (Response ''OK'' 200, pre @ s\<lparr>isLive := False\<rparr> # post) \<and>
            POST receive req2 (snd (POST receive req1 db))
              = (Response ''OK'' 200, pre @ s\<lparr>isLive := False\<rparr> # post) \<and>
            POST receive req1 (snd (POST receive req2 db))
              = (Response ''OK'' 200, pre @ s\<lparr>isLive := True\<rparr> # post)) \<and>
         isLive_of i (snd (POST receive req1 db)) = Some True \<and>
         isLive_of i (snd (POST receive req2 db)) = Some False \<and>
         status (fst (POST receive req2 (snd (POST receive req1 db)))) = 200 \<and>
         isLive_of i (snd (POST receive req2 (snd (POST receive req1 db)))) = Some False \<and>
         POST receive req1 (snd (POST receive req1 db)) = POST receive req1 db \<and>
         POST receive req2 (snd (POST receive req2 db)) = POST receive req2 db"
proof -
  from split_list_first_prop [OF known] obtain pre s post where
    d: "db = pre @ s # post" "stream_ingressId s = Some i"
       "\<forall>z\<in>set pre. stream_ingressId z \<noteq> Some i"
    by blast
  have e1: "event ev1 = (if True then ''ingress_started'' else ''ingress_ended'')"
    using started(4) by simp
  have e2: "event ev2 = (if False then ''ingress_started'' else ''ingress_ended'')"
    using ended(4) by simp
  have p1: "POST receive req1 (pre @ x # post) = (Response ''OK'' 200, pre @ x\<lparr>isLive := True\<rparr> # post)"
    if "stream_ingressId x = Some i" for x
    using POST_live_event [of req1 a1 receive ev1 True i pre x post] started(1,2,3,5) e1 d(3) that
    by simp
  have p2: "POST receive req2 (pre @ x # post) = (Response ''OK'' 200, pre @ x\<lparr>isLive := False\<rparr> # post)"
    if "stream_ingressId x = Some i" for x
    using POST_live_event [of req2 a2 receive ev2 False i pre x post] ended(1,2,3,5) e2 d(3) that
    by simp
  have f: "isLive_of i (pre @ x # post) = Some (isLive x)" if "stream_ingressId x = Some i" for x
    using find_first_row [of pre "\<lambda>s. stream_ingressId s = Some i" x post] d(3) that
    by (simp add: isLive_of_def)
  have s1: "stream_ingressId (s\<lparr>isLive := True\<rparr>) = Some i" using d(2) by simp
  have s2: "stream_ingressId (s\<lparr>isLive := False\<rparr>) = Some i" using d(2) by simp
  have r1: "POST receive req1 db = (Response ''OK'' 200, pre @ s\<lparr>isLive := True\<rparr> # post)"
    unfolding d(1) by (rule p1 [OF d(2)])
  have q1: "POST receive req2 db = (Response ''OK'' 200, pre @ s\<lparr>isLive := False\<rparr> # post)"
    unfolding d(1) by (rule p2 [OF d(2)])
  have r2: "POST receive req2 (snd (POST receive req1 db))
      = (Response ''OK'' 200, pre @ s\<lparr>isLive := False\<rparr> # post)"
    using p2 [OF s1] r1 by simp
  have q2: "POST receive req1 (snd (POST receive req2 db))
      = (Response ''OK'' 200, pre @ s\<lparr>isLive := True\<rparr> # post)"
    using p1 [OF s2] q1 by simp
  have r3: "POST receive req1 (snd (POST receive req1 db)) = POST receive req1 db"
    using p1 [OF s1] r1 by simp
  have q3: "POST receive req2 (snd (POST receive req2 db)) = POST receive req2 db"
    using p2 [OF s2] q1 by simp
  have a: "\<exists>pre s post. db = pre @ s # post \<and> stream_ingressId s = Some i \<and>
            (\<forall>z\<in>set pre. stream_ingressId z \<noteq> Some i) \<and>
            POST receive req1 db = (Response ''OK'' 200, pre @ s\<lparr>isLive := True\<rparr> # post) \<and>
            POST receive req2 db = (Response ''OK'' 200, pre @ s\<lparr>isLive := False\<rparr> # post) \<and>
            POST receive req2 (snd (POST receive req1 db))
              = (Response ''OK'' 200, pre @ s\<lparr>isLive := False\<rparr> # post) \<and>
            POST receive req1 (snd (POST receive req2 db))
              = (Response ''OK'' 200, pre @ s\<lparr>isLive := True\<rparr> # post)"
    by (intro exI [of _ pre] exI [of _ s] exI [of _ post] conjI d r1 q1 r2 q2)
  have b: "isLive_of i (snd (POST receive req1 db)) = Some True"
    using f [OF s1] r1 by simp
  have b': "isLive_of i (snd (POST receive req2 db)) = Some False"
    using f [OF s2] q1 by simp
  have c: "status (fst (POST receive req2 (snd (POST receive req1 db)))) = 200"
    using r2 by simp
  have e: "isLive_of i (snd (POST receive req2 (snd (POST receive req1 db)))) = Some False"
    using f [OF s2] r2 by simp
  from a b b' c e r3 q3 show ?thesis by (intro conjI)
qed

theorem POST_isLive_assignment_witness:
  "(\<exists>s\<in>set provisioned_streams. stream_ingressId s = Some ''I1'') \<and>
   isLive_of ''I1'' provisioned_streams = Some False \<and>
   isLive_of ''I1'' (snd (POST (\<lambda>b. accept_as b ''I1'' b) (signed_request\<lparr>body := ''ingress_started''\<rparr>)
      provisioned_streams)) = Some True \<and>
   isLive_of ''I1'' (snd (POST (\<lambda>b. accept_as b ''I1'' b) (signed_request\<lparr>body := ''ingress_ended''\<rparr>)
      provisioned_streams)) = Some False \<and>
   isLive_of ''I1'' (snd (POST (\<lambda>b. accept_as b ''I1'' b) (signed_request\<lparr>body := ''ingress_ended''\<rparr>)
      (snd (POST (\<lambda>b. accept_as b ''I1'' b) (signed_request\<lparr>body := ''ingress_started''\<rparr>)
         provisioned_streams)))) = Some False \<and>
   POST (\<lambda>b. accept_as b ''I1'' b) (signed_request\<lparr>body := ''ingress_started''\<rparr>)
      (snd (POST (\<lambda>b. accept_as b ''I1'' b) (signed_request\<lparr>body := ''ingress_started''\<rparr>)
         provisioned_streams))
     = POST (\<lambda>b. accept_as b ''I1'' b) (signed_request\<lparr>body := ''ingress_started''\<rparr>)
         provisioned_streams \<and>
   POST (\<lambda>b. accept_as b ''I1'' b) (signed_request\<lparr>body := ''ingress_ended''\<rparr>)
      (snd (POST (\<lambda>b. accept_as b ''I1'' b) (signed_request\<lparr>body := ''ingress_ended''\<rparr>)
         provisioned_streams))
     = POST (\<lambda>b. accept_as b ''I1'' b) (signed_request\<lparr>body := ''ingress_ended''\<rparr>)
         provisioned_streams"
proof -
  let ?recv = "\<lambda>b. accept_as b ''I1'' b"
  let ?req1 = "signed_request\<lparr>body := ''ingress_started''\<rparr>"
  let ?req2 = "signed_request\<lparr>body := ''ingress_ended''\<rparr>"
  let ?ev1 = "\<lparr>event = ''ingress_started'', ingressInfo = Some (mk_ingress ''I1'' ''U1'' ''U1'')\<rparr>"
  let ?ev2 = "\<lparr>event = ''ingress_ended'', ingressInfo = Some (mk_ingress ''I1'' ''U1'' ''U1'')\<rparr>"
  have k: "\<exists>s\<in>set provisioned_streams. stream_ingressId s = Some ''I1''"
    by (simp add: provisioned_streams_def mk_stream_def)
  have l: "isLive_of ''I1'' provisioned_streams = Some False"
    by (simp add: isLive_of_def provisioned_streams_def mk_stream_def)
  have a1: "authorization ?req1 = Some ''signature''" by (simp add: signed_request_def)
  have a2: "authorization ?req2 = Some ''signature''" by (simp add: signed_request_def)
  have n: "''signature'' \<noteq> []" by simp
  have r1: "?recv (body ?req1) ''signature'' = Inr ?ev1" by (simp add: accept_as_def)
  have r2: "?recv (body ?req2) ''signature'' = Inr ?ev2" by (simp add: accept_as_def)
  have e1: "event ?ev1 = ''ingress_started''" by simp
  have e2: "event ?ev2 = ''ingress_ended''" by simp
  have i1: "map_option ingressId (ingressInfo ?ev1) = Some ''I1''" by (simp add: mk_ingress_def)
  have i2: "map_option ingressId (ingressInfo ?ev2) = Some ''I1''" by (simp add: mk_ingress_def)
  from POST_isLive_assignment
         [of provisioned_streams "''I1''" ?req1 "''signature''" ?recv ?ev1 ?req2 "''signature''" ?ev2,
          OF k a1 n r1 e1 i1 a2 n r2 e2 i2]
       k l
  show ?thesis by blast
qed

end
